theory Spec2Isabelle
  imports Main "HOL-Library.Sublist"
begin

section \<open>Python string primitives used by parser.py\<close>

text \<open>
  Text is a list of characters. A character of the model is a code point below 256;
  the classifications below (\<open>isspace\<close>, \<open>isdigit\<close>, \<open>lower\<close>, line boundaries) are
  the ones Python's \<open>str\<close> methods apply to those code points.
\<close>

definition slice :: "'a list \<Rightarrow> nat \<Rightarrow> nat \<Rightarrow> 'a list" where
  \<comment> \<open>\<open>xs[a:b]\<close> for non-negative bounds; out-of-range bounds are clamped, as in Python.\<close>
  "slice xs a b = take (b - a) (drop a xs)"

fun find_sub :: "string \<Rightarrow> string \<Rightarrow> nat option" where
  \<comment> \<open>\<open>s.find(sub)\<close>: the lowest index where \<open>sub\<close> occurs; \<open>None\<close> stands for -1.\<close>
  "find_sub sub [] = (if sub = [] then Some 0 else None)"
| "find_sub sub (c # s) =
     (if prefix sub (c # s) then Some 0 else map_option Suc (find_sub sub s))"

definition str_find :: "string \<Rightarrow> string \<Rightarrow> nat \<Rightarrow> nat option" where
  \<comment> \<open>\<open>text.find(sub, start)\<close>.\<close>
  "str_find text sub start =
     (if start \<le> length text
      then map_option (\<lambda>k. start + k) (find_sub sub (drop start text))
      else None)"

definition startswith_at :: "string \<Rightarrow> string \<Rightarrow> nat \<Rightarrow> bool" where
  \<comment> \<open>\<open>text.startswith(sub, i)\<close>.\<close>
  "startswith_at text sub i = (i \<le> length text \<and> prefix sub (drop i text))"

definition isspace :: "char \<Rightarrow> bool" where
  "isspace c =
     (let n = (of_char c :: nat)
      in (9 \<le> n \<and> n \<le> 13) \<or> (28 \<le> n \<and> n \<le> 32) \<or> n = 133 \<or> n = 160)"

definition lstrip :: "string \<Rightarrow> string" where
  "lstrip s = dropWhile isspace s"

definition rstrip :: "string \<Rightarrow> string" where
  "rstrip s = rev (dropWhile isspace (rev s))"

definition strip :: "string \<Rightarrow> string" where
  "strip s = rstrip (lstrip s)"

definition rstrip_chars :: "string \<Rightarrow> string \<Rightarrow> string" where
  \<comment> \<open>\<open>s.rstrip(chars)\<close>.\<close>
  "rstrip_chars chars s = rev (dropWhile (\<lambda>c. c \<in> set chars) (rev s))"

definition lstrip_sp :: "string \<Rightarrow> string" where
  \<comment> \<open>\<open>s.lstrip(" ")\<close>: only the space character is removed.\<close>
  "lstrip_sp s = dropWhile (\<lambda>c. c = CHR '' '') s"

definition lower_char :: "char \<Rightarrow> char" where
  \<comment> \<open>An upper-case letter is 32 below its lower-case form: bit 5 is set.\<close>
  "lower_char c =
     (let n = (of_char c :: nat)
      in if (65 \<le> n \<and> n \<le> 90) \<or> (192 \<le> n \<and> n \<le> 222 \<and> n \<noteq> 215)
         then (case c of Char b0 b1 b2 b3 b4 b5 b6 b7 \<Rightarrow> Char b0 b1 b2 b3 b4 True b6 b7)
         else c)"

definition lower :: "string \<Rightarrow> string" where
  "lower s = map lower_char s"

definition isdigit :: "char \<Rightarrow> bool" where
  \<comment> \<open>The decimal digits and the superscripts two, three and one.\<close>
  "isdigit c =
     (let n = (of_char c :: nat)
      in (48 \<le> n \<and> n \<le> 57) \<or> n = 178 \<or> n = 179 \<or> n = 185)"

definition is_linebreak :: "char \<Rightarrow> bool" where
  "is_linebreak c =
     (let n = (of_char c :: nat)
      in (10 \<le> n \<and> n \<le> 13) \<or> (28 \<le> n \<and> n \<le> 30) \<or> n = 133)"

fun splitlines_from :: "string \<Rightarrow> string \<Rightarrow> string list" where
  \<comment> \<open>The second argument is the line read so far; a carriage return followed by a
      line feed is one boundary, and a final boundary opens no empty line.\<close>
  "splitlines_from [] cur = (if cur = [] then [] else [cur])"
| "splitlines_from [c] cur = (if is_linebreak c then [cur] else [cur @ [c]])"
| "splitlines_from (c # d # s) cur =
     (if c = CHR 0x0D \<and> d = CHR 0x0A then cur # splitlines_from s []
      else if is_linebreak c then cur # splitlines_from (d # s) []
      else splitlines_from (d # s) (cur @ [c]))"

definition splitlines :: "string \<Rightarrow> string list" where
  "splitlines s = splitlines_from s []"

fun join :: "string \<Rightarrow> string list \<Rightarrow> string" where
  \<comment> \<open>\<open>sep.join(xs)\<close>.\<close>
  "join sep [] = []"
| "join sep [x] = x"
| "join sep (x # y # xs) = x @ sep @ join sep (y # xs)"

section \<open>html.escape\<close>

text \<open>
  \<open>escape\<close> is \<open>html.escape\<close> of the Python standard library, imported at line 11. It
  replaces the ampersand first and then the two angle brackets and, when \<open>quote\<close> is
  true, the double and the single quote; since no replacement text contains a character
  that a later replacement looks for, this is a map over the characters. The parameter
  \<open>quote\<close> defaults to true, so \<open>escape(s)\<close> is \<open>escape_q s True\<close>.
\<close>

definition escape_char :: "bool \<Rightarrow> char \<Rightarrow> string" where
  "escape_char quote c =
     (if c = CHR ''&'' then ''&amp;''
      else if c = CHR ''<'' then ''&lt;''
      else if c = CHR ''>'' then ''&gt;''
      else if quote \<and> c = CHR 0x22 then ''&quot;''
      else if quote \<and> c = CHR 0x27 then ''&#x27;''
      else [c])"

definition escape_q :: "string \<Rightarrow> bool \<Rightarrow> string" where
  "escape_q s quote = concat (map (escape_char quote) s)"

definition escape :: "string \<Rightarrow> string" where
  "escape s = escape_q s True"

section \<open>The inline span formatter (parse_inline, lines 26-110)\<close>

definition MAX_INLINE_CHARS :: nat where
  "MAX_INLINE_CHARS = 100000"

lemma find_sub_bound:
  "find_sub sub s = Some k \<Longrightarrow> k + length sub \<le> length s"
  by (induction s arbitrary: k) (auto split: if_splits dest: prefix_length_le)

lemma str_find_bound:
  "str_find t sub start = Some e \<Longrightarrow> start \<le> e \<and> e + length sub \<le> length t"
  by (auto simp: str_find_def split: if_splits dest!: find_sub_bound)

text \<open>
  The search for the closing emphasis delimiter (lines 66-73): \<open>e\<close> is the variable
  \<open>end\<close>, and \<open>None\<close> is its final value -1.
\<close>

function em_close :: "string \<Rightarrow> char \<Rightarrow> nat \<Rightarrow> nat option" where
  "em_close text ch e =
     (case str_find text [ch] e of
        None \<Rightarrow> None
      | Some e' \<Rightarrow>
          if \<not> (e' + 1 < length text \<and> text ! (e' + 1) = ch) then Some e'
          else em_close text ch (e' + 2))"
  by pat_completeness auto
termination
  by (relation "measure (\<lambda>(t, ch, e). length t - e)")
     (auto dest!: str_find_bound)

declare em_close.simps [simp del]

lemma em_close_bound:
  "em_close t ch e = Some k \<Longrightarrow> e \<le> k \<and> k < length t"
proof (induction t ch e rule: em_close.induct)
  case (1 t ch e)
  show ?case
  proof (cases "str_find t [ch] e")
    case None
    with "1.prems" show ?thesis by (simp add: em_close.simps)
  next
    case (Some e')
    from str_find_bound[OF Some] have b: "e \<le> e'" "e' < length t" by auto
    show ?thesis
    proof (cases "e' + 1 < length t \<and> t ! (e' + 1) = ch")
      case True
      with "1.prems" Some have "em_close t ch (e' + 2) = Some k"
        by (simp add: em_close.simps)
      with "1.IH"[OF Some] True have "e' + 2 \<le> k \<and> k < length t" by simp
      with b show ?thesis by simp
    next
      case False
      with "1.prems" Some have "k = e'" by (auto simp: em_close.simps)
      with b show ?thesis by simp
    qed
  qed
qed

text \<open>
  The link recogniser (lines 85-92): the positions of the closing bracket and of the
  closing parenthesis when \<open>](\<close> and \<open>)\<close> are found, \<open>None\<close> when the pattern does not
  complete and control falls through to line 103.
\<close>

definition link_at :: "string \<Rightarrow> nat \<Rightarrow> (nat \<times> nat) option" where
  "link_at text i =
     (case str_find text '']'' (i + 1) of
        None \<Rightarrow> None
      | Some close_bracket \<Rightarrow>
          if close_bracket + 1 < length text \<and> text ! (close_bracket + 1) = CHR ''(''
          then (case str_find text '')'' (close_bracket + 2) of
                  None \<Rightarrow> None
                | Some close_paren \<Rightarrow> Some (close_bracket, close_paren))
          else None)"

definition link_url :: "string \<Rightarrow> nat \<Rightarrow> nat \<Rightarrow> string" where
  "link_url text close_bracket close_paren =
     strip (slice text (close_bracket + 2) close_paren)"

lemma link_at_bound:
  "link_at t i = Some (cb, cp) \<Longrightarrow> i < cb \<and> cb + 2 \<le> cp \<and> cp < length t"
  by (auto simp: link_at_def split: option.splits if_splits dest!: str_find_bound)

text \<open>
  \<open>inline_loop text i\<close> is what the loop of lines 34-108 appends to \<open>result\<close> from
  cursor \<open>i\<close> on, joined; the branches are in the order of the source.
\<close>

function parse_inline :: "string \<Rightarrow> string"
  and inline_loop :: "string \<Rightarrow> nat \<Rightarrow> string" where
  "parse_inline text =
     (if length text > MAX_INLINE_CHARS then escape text else inline_loop text 0)"
| "inline_loop text i =
     (if i < length text then
        (if text ! i = CHR ''`'' then
           (case str_find text ''`'' (i + 1) of
              Some e \<Rightarrow>
                ''<code>'' @ escape (slice text (i + 1) e) @ ''</code>''
                  @ inline_loop text (e + 1)
            | None \<Rightarrow> escape [text ! i] @ inline_loop text (i + 1))
         else if startswith_at text ''**'' i \<or> startswith_at text ''__'' i then
           (case str_find text (slice text i (i + 2)) (i + 2) of
              Some e \<Rightarrow>
                ''<strong>'' @ parse_inline (slice text (i + 2) e) @ ''</strong>''
                  @ inline_loop text (e + 2)
            | None \<Rightarrow> escape (slice text i (i + 2)) @ inline_loop text (i + 2))
         else if text ! i = CHR ''*'' \<or> text ! i = CHR ''_'' then
           (if i + 1 < length text \<and> text ! (i + 1) = text ! i then
              escape [text ! i, text ! i] @ inline_loop text (i + 2)
            else
              (case em_close text (text ! i) (i + 1) of
                 Some e \<Rightarrow>
                   ''<em>'' @ parse_inline (slice text (i + 1) e) @ ''</em>''
                     @ inline_loop text (e + 1)
               | None \<Rightarrow> escape [text ! i] @ inline_loop text (i + 1)))
         else if text ! i = CHR ''['' then
           (case link_at text i of
              Some (close_bracket, close_paren) \<Rightarrow>
                (if \<not> prefix ''javascript:'' (lower (link_url text close_bracket close_paren))
                 then ''<a href='' @ [CHR 0x22]
                        @ escape_q (link_url text close_bracket close_paren) True
                        @ [CHR 0x22] @ ''>''
                        @ parse_inline (slice text (i + 1) close_bracket) @ ''</a>''
                 else parse_inline (slice text (i + 1) close_bracket))
                @ inline_loop text (close_paren + 1)
            | None \<Rightarrow> escape [text ! i] @ inline_loop text (i + 1))
         else escape [text ! i] @ inline_loop text (i + 1))
      else [])"
  by pat_completeness auto
termination
  by (relation "inv_image (less_than <*lex*> less_than)
        (\<lambda>x. case x of Inl t \<Rightarrow> (length t, length t + 1)
                       | Inr (t, i) \<Rightarrow> (length t, length t - i))")
     (auto simp: slice_def startswith_at_def
           dest!: str_find_bound em_close_bound link_at_bound dest: prefix_length_le)

declare parse_inline.simps [simp del] inline_loop.simps [simp del]

section \<open>The list assembler (is_list_line and parse_list, lines 112-182)\<close>

definition is_blank :: "string \<Rightarrow> bool" where
  \<comment> \<open>\<open>not line.strip()\<close>.\<close>
  "is_blank line = (strip line = [])"

definition indent_of :: "string \<Rightarrow> nat" where
  \<comment> \<open>\<open>len(line) - len(line.lstrip(" "))\<close>.\<close>
  "indent_of line = length line - length (lstrip_sp line)"

definition bullet :: "string \<Rightarrow> bool" where
  \<comment> \<open>\<open>s.startswith(("- ", "* ", "+ "))\<close>.\<close>
  "bullet s = (prefix ''- '' s \<or> prefix ''* '' s \<or> prefix ''+ '' s)"

definition digit_run :: "string \<Rightarrow> nat" where
  \<comment> \<open>The final value of \<open>j\<close> in the loops of lines 118-120 and 142-144.\<close>
  "digit_run s = length (takeWhile isdigit s)"

definition ordinal :: "string \<Rightarrow> nat \<Rightarrow> bool" where
  \<comment> \<open>The test of lines 121 and 145.\<close>
  "ordinal s j =
     (j > 0 \<and> j < length s \<and> s ! j = CHR ''.'' \<and> slice s (j + 1) (j + 2) = '' '')"

definition is_list_line :: "string \<Rightarrow> bool" where
  "is_list_line s =
     (if s = [] then False
      else if bullet s then True
      else ordinal s (digit_run s))"

definition list_item :: "string \<Rightarrow> (string \<times> string) option" where
  \<comment> \<open>Lines 138-149: the list type and the content of an item line, \<open>None\<close> at the
      \<open>break\<close> of line 149.\<close>
  "list_item stripped =
     (if bullet stripped then Some (''ul'', drop 2 stripped)
      else if ordinal stripped (digit_run stripped)
           then Some (''ol'', drop (digit_run stripped + 2) stripped)
           else None)"

text \<open>The stack holds (list type, indentation) pairs; its top \<open>stack[-1]\<close> is the head.\<close>

fun close_levels :: "(string \<times> nat) list \<Rightarrow> nat \<Rightarrow> string \<Rightarrow> string
    \<Rightarrow> (string \<times> nat) list \<times> string" where
  \<comment> \<open>The loop of lines 152-153.\<close>
  "close_levels [] indent ltype html = ([], html)"
| "close_levels ((t, d) # stack) indent ltype html =
     (if indent < d \<or> (indent = d \<and> ltype \<noteq> t)
      then close_levels stack indent ltype (html @ ''</'' @ t @ ''>'')
      else ((t, d) # stack, html))"

fun open_level :: "(string \<times> nat) list \<times> string \<Rightarrow> nat \<Rightarrow> string
    \<Rightarrow> (string \<times> nat) list \<times> string" where
  \<comment> \<open>Lines 155-157.\<close>
  "open_level ([], html) indent ltype = ([(ltype, indent)], html @ ''<'' @ ltype @ ''>'')"
| "open_level ((t, d) # stack, html) indent ltype =
     (if ltype \<noteq> t \<or> indent > d
      then ((ltype, indent) # (t, d) # stack, html @ ''<'' @ ltype @ ''>'')
      else ((t, d) # stack, html))"

fun close_all :: "(string \<times> nat) list \<Rightarrow> string \<Rightarrow> string" where
  \<comment> \<open>The loop of lines 179-180.\<close>
  "close_all [] html = html"
| "close_all ((t, d) # stack) html = close_all stack (html @ ''</'' @ t @ ''>'')"

definition has_nested :: "string list \<Rightarrow> nat \<Rightarrow> bool" where
  \<comment> \<open>Lines 160-167.\<close>
  "has_nested lines i =
     (i + 1 < length lines \<and> \<not> is_blank (lines ! i)
      \<and> indent_of (lines ! (i + 1)) > indent_of (lines ! i)
      \<and> is_list_line (lstrip_sp (lines ! (i + 1))))"

text \<open>
  \<open>list_loop lines i stack html\<close> is the loop of lines 130-177 followed by lines 179-182,
  from the state \<open>(i, stack, html)\<close>. The recursive call of line 171 starts the loop
  at the next line with an empty stack and an empty buffer; its argument \<open>base_indent\<close>
  is never read.
\<close>

function list_loop :: "string list \<Rightarrow> nat \<Rightarrow> (string \<times> nat) list \<Rightarrow> string
    \<Rightarrow> string \<times> nat" where
  "list_loop lines i stack html =
     (if i < length lines then
        (if is_blank (lines ! i) then (close_all stack html, i)
         else
           (case list_item (lstrip_sp (lines ! i)) of
              None \<Rightarrow> (close_all stack html, i)
            | Some (ltype, content) \<Rightarrow>
                (case open_level (close_levels stack (indent_of (lines ! i)) ltype html)
                        (indent_of (lines ! i)) ltype of
                   (stack', html') \<Rightarrow>
                     if has_nested lines i then
                       (case list_loop lines (i + 1) [] [] of
                          (nested_html, new_i) \<Rightarrow>
                            list_loop lines new_i stack'
                              (html' @ ''<li>'' @ parse_inline content @ nested_html @ ''</li>''))
                     else
                       list_loop lines (i + 1) stack'
                         (html' @ ''<li>'' @ parse_inline content @ ''</li>''))))
      else (close_all stack html, i))"
  by pat_completeness auto

lemma list_loop_index:
  "list_loop_dom (ls, i, st, h) \<Longrightarrow> i \<le> snd (list_loop ls i st h)"
proof (induction ls i st h rule: list_loop.pinduct)
  case (1 ls i st h)
  show ?case
    using "1.IH" "1.hyps"
    by (subst list_loop.psimps[OF "1.hyps"])
       (fastforce split: option.splits prod.splits if_splits)
qed

lemma list_loop_index_pair:
  "list_loop_dom (ls, i, st, h) \<Longrightarrow> (a, b) = list_loop ls i st h \<Longrightarrow> i \<le> b"
  using list_loop_index[of ls i st h] by (metis snd_conv)

termination list_loop
  by (relation "measure (\<lambda>(ls, i, st, h). length ls - i)")
     (auto dest!: list_loop_index_pair)

declare list_loop.simps [simp del]

definition parse_list :: "string list \<Rightarrow> nat \<Rightarrow> nat \<Rightarrow> string \<times> nat" where
  "parse_list lines start base_indent = list_loop lines start [] []"

section \<open>The block dispatcher (parse_markdown, lines 16-24 and 184-248)\<close>

definition is_fence :: "string \<Rightarrow> bool" where
  \<comment> \<open>\<open>line.startswith("```")\<close>, on the line as it is.\<close>
  "is_fence line = prefix ''```'' line"

function find_fence :: "string list \<Rightarrow> nat \<Rightarrow> nat option" where
  \<comment> \<open>The loop of lines 191-194 from index \<open>j\<close>; \<open>None\<close> is \<open>close_idx = -1\<close>.\<close>
  "find_fence lines j =
     (if j < length lines
      then (if is_fence (lines ! j) then Some j else find_fence lines (j + 1))
      else None)"
  by pat_completeness auto
termination
  by (relation "measure (\<lambda>(ls, j). length ls - j)") auto

declare find_fence.simps [simp del]

definition code_block :: "string list \<Rightarrow> nat \<Rightarrow> nat \<Rightarrow> string" where
  \<comment> \<open>Lines 200-212, for the opening line \<open>i\<close> and the closing line \<open>close_idx\<close>.\<close>
  "code_block lines i close_idx =
     ''<pre><code''
       @ (if strip (drop 3 (lines ! i)) \<noteq> []
          then '' class='' @ [CHR 0x22] @ ''language-''
                 @ escape (strip (drop 3 (lines ! i))) @ [CHR 0x22]
          else [])
       @ ''>'' @ [CHR 0x0A]
       @ join [CHR 0x0A] (map escape (slice lines (i + 1) close_idx))
       @ [CHR 0x0A] @ ''</code></pre>''"

definition count_hashes :: "string \<Rightarrow> nat" where
  \<comment> \<open>The final value of \<open>hashes\<close> in the loop of lines 217-219.\<close>
  "count_hashes stripped = length (takeWhile (\<lambda>c. c = CHR ''#'') stripped)"

definition is_heading :: "string \<Rightarrow> bool" where
  \<comment> \<open>The test of line 220.\<close>
  "is_heading stripped =
     (1 \<le> count_hashes stripped \<and> count_hashes stripped \<le> 6
      \<and> slice stripped (count_hashes stripped) (count_hashes stripped + 1) = '' '')"

definition heading :: "string \<Rightarrow> string" where
  \<comment> \<open>Lines 221-222; the level is between 1 and 6, so it prints as one digit.\<close>
  "heading stripped =
     ''<h'' @ [''0123456'' ! count_hashes stripped] @ ''>''
       @ parse_inline (strip (rstrip_chars ''# '' (drop (count_hashes stripped + 1) stripped)))
       @ ''</h'' @ [''0123456'' ! count_hashes stripped] @ ''>''"

definition starts_list :: "string \<Rightarrow> bool" where
  \<comment> \<open>The test of lines 229-231.\<close>
  "starts_list stripped =
     (bullet stripped
      \<or> (stripped \<noteq> [] \<and> isdigit (stripped ! 0) \<and> CHR ''.'' \<in> set stripped))"

function para_loop :: "string list \<Rightarrow> nat \<Rightarrow> string list \<Rightarrow> string list \<times> nat" where
  \<comment> \<open>The loop of lines 240-242.\<close>
  "para_loop lines i para =
     (if i < length lines \<and> \<not> is_blank (lines ! i)
      then para_loop lines (i + 1) (para @ [strip (lines ! i)])
      else (para, i))"
  by pat_completeness auto
termination
  by (relation "measure (\<lambda>(ls, i, p). length ls - i)") auto

declare para_loop.simps [simp del]

text \<open>
  The main loop (lines 185-246) from cursor \<open>i\<close> with the blocks emitted so far. It is
  a partial function: \<open>None\<close> means that the loop does not return.
\<close>

partial_function (option) main_loop :: "string list \<Rightarrow> nat \<Rightarrow> string list \<Rightarrow> string option"
  where
  "main_loop lines i output =
     (if i < length lines then
        (if is_fence (lines ! i) then
           (case find_fence lines (i + 1) of
              None \<Rightarrow>
                main_loop lines (i + 1) (output @ [''<p>'' @ escape (lines ! i) @ ''</p>''])
            | Some close_idx \<Rightarrow>
                main_loop lines (close_idx + 1) (output @ [code_block lines i close_idx]))
         else if is_heading (lstrip (lines ! i)) then
           main_loop lines (i + 1) (output @ [heading (lstrip (lines ! i))])
         else if starts_list (lstrip_sp (lines ! i)) then
           (case parse_list lines i (indent_of (lines ! i)) of
              (html, i') \<Rightarrow> main_loop lines i' (output @ [html]))
         else if \<not> is_blank (lines ! i) then
           (case para_loop lines (i + 1) [strip (lines ! i)] of
              (para, i') \<Rightarrow>
                main_loop lines i'
                  (output @ [''<p>'' @ parse_inline (join '' '' para) @ ''</p>'']))
         else main_loop lines (i + 1) output)
      else Some (join [CHR 0x0A] output))"

definition parse_markdown :: "string \<Rightarrow> string option" where
  "parse_markdown markdown =
     (if markdown = [] \<or> strip markdown = [] then Some []
      else main_loop (splitlines markdown) 0 [])"

definition stop_line :: "string list \<Rightarrow> nat \<Rightarrow> bool" where
  \<comment> \<open>The list assembler stops at index \<open>j\<close>: lines 130, 132 and 149.\<close>
  "stop_line ls j =
     (\<not> j < length ls \<or> is_blank (ls ! j) \<or> list_item (lstrip_sp (ls ! j)) = None)"

definition stack_ok :: "(string \<times> nat) list \<Rightarrow> bool" where
  \<comment> \<open>Every level of the stack is an unordered or an ordered list.\<close>
  "stack_ok st = (\<forall>p \<in> set st. fst p = ''ul'' \<or> fst p = ''ol'')"

definition line_view :: "string \<Rightarrow> bool \<times> nat \<times> (string \<times> string) option \<times> bool" where
  \<comment> \<open>All that the list assembler reads of a line.\<close>
  "line_view l = (is_blank l, indent_of l, list_item (lstrip_sp l), is_list_line (lstrip_sp l))"

section \<open>Well-formed output\<close>

text \<open>
  The language of safe inline markup. Character data holds no raw ampersand or angle
  bracket: each is present only as one of the five entities. An attribute value holds no
  raw quote either. Inline markup is character data and the four elements the formatter
  emits, each opened and closed, with inline markup inside (character data inside a code
  element), and an attribute value in the anchor's \<open>href\<close>.
\<close>

definition entities :: "string list" where
  "entities = [''&amp;'', ''&lt;'', ''&gt;'', ''&quot;'', ''&#x27;'']"

inductive pcdata :: "string \<Rightarrow> bool" where
  pc_empty: "pcdata []"
| pc_char: "c \<noteq> CHR ''&'' \<Longrightarrow> c \<noteq> CHR ''<'' \<Longrightarrow> c \<noteq> CHR ''>'' \<Longrightarrow> pcdata s \<Longrightarrow> pcdata (c # s)"
| pc_entity: "e \<in> set entities \<Longrightarrow> pcdata s \<Longrightarrow> pcdata (e @ s)"

inductive attr_value :: "string \<Rightarrow> bool" where
  av_empty: "attr_value []"
| av_char: "c \<noteq> CHR ''&'' \<Longrightarrow> c \<noteq> CHR ''<'' \<Longrightarrow> c \<noteq> CHR ''>'' \<Longrightarrow> c \<noteq> CHR 0x22
            \<Longrightarrow> c \<noteq> CHR 0x27 \<Longrightarrow> attr_value s \<Longrightarrow> attr_value (c # s)"
| av_entity: "e \<in> set entities \<Longrightarrow> attr_value s \<Longrightarrow> attr_value (e @ s)"

inductive inline_html :: "string \<Rightarrow> bool" where
  ih_empty: "inline_html []"
| ih_text: "pcdata a \<Longrightarrow> inline_html s \<Longrightarrow> inline_html (a @ s)"
| ih_code: "pcdata b \<Longrightarrow> inline_html s \<Longrightarrow> inline_html (''<code>'' @ b @ ''</code>'' @ s)"
| ih_strong: "inline_html b \<Longrightarrow> inline_html s
              \<Longrightarrow> inline_html (''<strong>'' @ b @ ''</strong>'' @ s)"
| ih_em: "inline_html b \<Longrightarrow> inline_html s \<Longrightarrow> inline_html (''<em>'' @ b @ ''</em>'' @ s)"
| ih_anchor: "attr_value u \<Longrightarrow> inline_html b \<Longrightarrow> inline_html s
              \<Longrightarrow> inline_html (''<a href='' @ [CHR 0x22] @ u @ [CHR 0x22] @ ''>'' @ b @ ''</a>'' @ s)"





section \<open>The emphasis scan as the specification words it\<close>

text \<open>
  Section 4.2 of the specification: "scan forward for an isolated occurrence of the same
  delimiter character, skipping over any doubled occurrence encountered along the way".
  This second definition follows those words, on the text after the opening delimiter;
  it is compared with \<open>em_close\<close>, the loop of the source, below.
\<close>

fun isolated_close :: "char \<Rightarrow> string \<Rightarrow> nat option" where
  \<comment> \<open>The position of the first occurrence of \<open>ch\<close> that is not followed by
      \<open>ch\<close>, where an occurrence followed by \<open>ch\<close> is passed over with its pair.\<close>
  "isolated_close ch [] = None"
| "isolated_close ch [c] = (if c = ch then Some 0 else None)"
| "isolated_close ch (c # d # s) =
     (if c \<noteq> ch then map_option Suc (isolated_close ch (d # s))
      else if d = ch then map_option (\<lambda>k. k + 2) (isolated_close ch s)
      else Some 0)"

section \<open>Observations on the output\<close>

definition has_sub :: "string \<Rightarrow> string \<Rightarrow> bool" where
  \<comment> \<open>\<open>sub in s\<close>.\<close>
  "has_sub sub s = (find_sub sub s \<noteq> None)"

fun count_sub :: "string \<Rightarrow> string \<Rightarrow> nat" where
  \<comment> \<open>The number of positions of \<open>s\<close> at which \<open>sub\<close> occurs.\<close>
  "count_sub sub [] = 0"
| "count_sub sub (c # s) = (if prefix sub (c # s) then 1 else 0) + count_sub sub s"

section \<open>Evaluation on concrete inputs\<close>

lemmas inline_eval =
  parse_inline.simps inline_loop.simps MAX_INLINE_CHARS_def str_find_def
  startswith_at_def slice_def escape_def escape_q_def escape_char_def em_close.simps
  link_at_def link_url_def strip_def lstrip_def rstrip_def isspace_def lower_def
  lower_char_def

lemmas list_eval =
  parse_list_def list_loop.simps has_nested_def list_item_def is_list_line_def
  ordinal_def digit_run_def bullet_def isdigit_def indent_of_def lstrip_sp_def is_blank_def

lemmas block_eval =
  parse_markdown_def main_loop.simps splitlines_def is_linebreak_def is_fence_def
  find_fence.simps code_block_def count_hashes_def is_heading_def heading_def
  starts_list_def para_loop.simps rstrip_chars_def

lemma eval_inline_example:
  "parse_inline ''[ok]( JavaScript:x ) y'' = ''ok y''"
  by (simp add: inline_eval)

lemma eval_markdown_example:
  "parse_markdown (''# H1'' @ [CHR 0x0A] @ ''Line one'' @ [CHR 0x0A] @ ''Line two'')
     = Some (''<h1>H1</h1>'' @ [CHR 0x0A] @ ''<p>Line one Line two</p>'')"
  by (simp add: inline_eval list_eval block_eval)

lemma nth_drop_cons: "i < length xs \<Longrightarrow> drop i xs = xs ! i # drop (Suc i) xs"
  by (simp add: Cons_nth_drop_Suc)

section \<open>Content-position escaping\<close>

text \<open>
  Claim C4 says that content-position escaping replaces exactly the ampersand and the two
  angle brackets and leaves the quote characters unchanged. The formatter calls
  \<open>escape(ch)\<close> with the default \<open>quote=True\<close>, so a double quote and a single quote in a
  content position are replaced as well: the claim fails on a text that is one quote
  character.
\<close>

theorem content_escape_quotes_counterexample:
  "parse_inline [CHR 0x22] = ''&quot;'' \<and> parse_inline [CHR 0x27] = ''&#x27;''"
  by (simp add: inline_eval)

text \<open>
  C4, amended: when the cursor of the inline span formatter is at a character that opens
  no construct (not a backtick, an asterisk, an underscore or an opening bracket), the
  formatter emits the entity form of that character if it is one of the five characters
  ampersand, less-than, greater-than, double quote, single quote, emits the character
  itself otherwise, and moves the cursor by one.
\<close>

theorem content_escape:
  assumes "i < length t"
    and "t ! i \<notin> {CHR ''`'', CHR ''*'', CHR ''_'', CHR ''[''}"
  shows "inline_loop t i =
           (if t ! i = CHR ''&'' then ''&amp;''
            else if t ! i = CHR ''<'' then ''&lt;''
            else if t ! i = CHR ''>'' then ''&gt;''
            else if t ! i = CHR 0x22 then ''&quot;''
            else if t ! i = CHR 0x27 then ''&#x27;''
            else [t ! i]) @ inline_loop t (i + 1)"
  using assms
  by (subst inline_loop.simps)
     (auto simp: startswith_at_def nth_drop_cons escape_def escape_q_def escape_char_def)

theorem content_escape_witness:
  "inline_loop (''a'' @ [CHR 0x22]) 1 = ''&quot;'' @ inline_loop (''a'' @ [CHR 0x22]) (1 + 1)"
  using content_escape[of 1 "''a'' @ [CHR 0x22]"] by simp

section \<open>The nested list scenario\<close>

text \<open>
  Claim C8 says that the five lines \<open>- a\<close>, \<open>- b\<close>, \<open>- c\<close>, \<open>  - nested1\<close>,
  \<open>  - nested2\<close> give an output that contains \<open><li>c <ul>\<close> and so on, with a space
  after \<open>c\<close>. The content of an item is the line after its marker, unchanged, and the
  nested list follows it at once: with the third line \<open>- c\<close> there is no space in the
  output, so the fragment of the claim does not occur.
\<close>

theorem nested_list_example_counterexample:
  "parse_markdown (''- a'' @ [CHR 0x0A] @ ''- b'' @ [CHR 0x0A] @ ''- c'' @ [CHR 0x0A]
        @ ''  - nested1'' @ [CHR 0x0A] @ ''  - nested2'')
     = Some ''<ul><li>a</li><li>b</li><li>c<ul><li>nested1</li><li>nested2</li></ul></li></ul>''
   \<and> \<not> has_sub ''<li>c <ul><li>nested1</li><li>nested2</li></ul></li>''
         ''<ul><li>a</li><li>b</li><li>c<ul><li>nested1</li><li>nested2</li></ul></li></ul>''"
  by (simp add: inline_eval list_eval block_eval has_sub_def)

text \<open>
  C8, amended: for those five lines the output is the one list below; it contains
  exactly five list-item elements and the fragment
  \<open><li>c<ul><li>nested1</li><li>nested2</li></ul></li>\<close>, with no space between \<open>c\<close> and
  the nested list. The fragment with the space is the output for the third line
  \<open>- c\<close> followed by a space.
\<close>

theorem nested_list_example:
  "parse_markdown (''- a'' @ [CHR 0x0A] @ ''- b'' @ [CHR 0x0A] @ ''- c'' @ [CHR 0x0A]
        @ ''  - nested1'' @ [CHR 0x0A] @ ''  - nested2'')
     = Some ''<ul><li>a</li><li>b</li><li>c<ul><li>nested1</li><li>nested2</li></ul></li></ul>''
   \<and> count_sub ''<li>''
         ''<ul><li>a</li><li>b</li><li>c<ul><li>nested1</li><li>nested2</li></ul></li></ul>'' = 5
   \<and> has_sub ''<li>c<ul><li>nested1</li><li>nested2</li></ul></li>''
         ''<ul><li>a</li><li>b</li><li>c<ul><li>nested1</li><li>nested2</li></ul></li></ul>''
   \<and> parse_markdown (''- a'' @ [CHR 0x0A] @ ''- b'' @ [CHR 0x0A] @ ''- c '' @ [CHR 0x0A]
        @ ''  - nested1'' @ [CHR 0x0A] @ ''  - nested2'')
     = Some ''<ul><li>a</li><li>b</li><li>c <ul><li>nested1</li><li>nested2</li></ul></li></ul>''"
  by (simp add: inline_eval list_eval block_eval has_sub_def)

section \<open>Termination of the conversion\<close>

text \<open>
  The dispatcher hands a line to the list assembler when the line, without its leading
  spaces, starts with a bullet token, or starts with a digit and has a full stop
  anywhere (lines 229-231). The assembler accepts an ordered item only when the digits
  are followed by a full stop and a space (line 145). On a line that passes the first
  test and fails the second, the assembler stops at once and returns the index it was
  given; the dispatcher resumes at that same line, and the loop never ends.
\<close>

lemma main_loop_stuck:
  assumes "i < length ls" "\<not> is_fence (ls ! i)" "\<not> is_heading (lstrip (ls ! i))"
    "starts_list (lstrip_sp (ls ! i))" "\<not> is_blank (ls ! i)"
    "list_item (lstrip_sp (ls ! i)) = None"
  shows "main_loop ls i out = None"
proof (rule ccontr)
  assume "main_loop ls i out \<noteq> None"
  then obtain y where y: "main_loop ls i out = Some y" by auto
  have ll: "list_loop ls i [] [] = ([], i)"
    using assms by (subst list_loop.simps) simp
  have "\<not> (ls = ls \<and> i = i)"
    apply (rule main_loop.raw_induct[where P = "\<lambda>l j ou y. \<not> (l = ls \<and> j = i)", OF _ y])
    subgoal premises prems for f l j ou y'
    proof
      assume e: "l = ls \<and> j = i"
      with prems(2) assms ll have "f ls i (ou @ [[]]) = Some y'"
        by (simp add: parse_list_def)
      from prems(1)[OF this] show False by simp
    qed
    done
  then show False by simp
qed

text \<open>
  C3 (the conversion terminates on every finite input): on the one-line input \<open>3.14\<close>
  the conversion does not return.
\<close>

theorem parse_markdown_never_returns:
  "parse_markdown ''3.14'' = None"
proof -
  have "main_loop [''3.14''] 0 [] = None"
    by (rule main_loop_stuck) (simp_all add: inline_eval list_eval block_eval)
  then show ?thesis
    by (simp add: parse_markdown_def splitlines_def is_linebreak_def inline_eval)
qed

section \<open>Links with a javascript URL\<close>

lemma find_sub_single:
  "c \<notin> set a \<Longrightarrow> find_sub [c] (a @ c # b) = Some (length a)"
  by (induction a) auto

lemma str_find_single:
  "c \<notin> set a \<Longrightarrow> str_find (p @ a @ c # b) [c] (length p) = Some (length p + length a)"
  by (simp add: str_find_def find_sub_single)

lemma slice_mid:
  "a = length p \<Longrightarrow> b = length p + length m \<Longrightarrow> slice (p @ m @ r) a b = m"
  by (simp add: slice_def)

lemma link_at_link:
  assumes "CHR '']'' \<notin> set label" "CHR '')'' \<notin> set url"
  shows "link_at (pre @ ''['' @ label @ '']('' @ url @ '')'' @ post) (length pre)
           = Some (length pre + length label + 1, length pre + length label + length url + 3)"
proof -
  have 1: "str_find (pre @ ''['' @ label @ '']('' @ url @ '')'' @ post) '']'' (length pre + 1)
             = Some (length pre + 1 + length label)"
    using str_find_single[of "CHR '']''" label "pre @ ''[''" "''('' @ url @ '')'' @ post"] assms(1)
    by simp
  have 2: "str_find (pre @ ''['' @ label @ '']('' @ url @ '')'' @ post) '')''
             (length pre + 1 + length label + 2)
             = Some (length pre + 1 + length label + 2 + length url)"
    using str_find_single[of "CHR '')''" url "pre @ ''['' @ label @ ''](''" post] assms(2)
    by simp
  show ?thesis
    using 1 2 by (simp add: link_at_def nth_append add.commute add.left_commute)
qed

text \<open>
  C1: let the cursor of the inline span formatter be at a link \<open>[label](url)\<close>, where
  \<open>label\<close> runs to the first closing bracket and \<open>url\<close> to the first closing
  parenthesis. If \<open>url\<close>, trimmed and in lower case, starts with \<open>javascript:\<close>, the
  formatter emits exactly the recursively formatted label for the construct, with no
  anchor around it, and continues after the closing parenthesis, whatever else the URL
  contains and whatever stands before and after the link.
\<close>

theorem javascript_link_suppressed:
  assumes "CHR '']'' \<notin> set label" "CHR '')'' \<notin> set url"
    and "prefix ''javascript:'' (lower (strip url))"
  shows "inline_loop (pre @ ''['' @ label @ '']('' @ url @ '')'' @ post) (length pre)
           = parse_inline label
             @ inline_loop (pre @ ''['' @ label @ '']('' @ url @ '')'' @ post)
                 (length pre + length label + length url + 4)"
proof -
  let ?t = "pre @ ''['' @ label @ '']('' @ url @ '')'' @ post"
  have la: "link_at ?t (length pre)
              = Some (length pre + length label + 1, length pre + length label + length url + 3)"
    using link_at_link[OF assms(1,2)] .
  have c: "?t ! length pre = CHR ''[''" by (simp add: nth_append)
  have ns: "\<not> startswith_at ?t ''**'' (length pre)" "\<not> startswith_at ?t ''__'' (length pre)"
    by (simp_all add: startswith_at_def)
  have "slice ?t (length pre + length label + 1 + 2) (length pre + length label + length url + 3)
          = url"
    using slice_mid[of "length pre + length label + 1 + 2" "pre @ ''['' @ label @ ''](''"
        "length pre + length label + length url + 3" url "'')'' @ post"]
    by simp
  then have u: "link_url ?t (length pre + length label + 1)
                  (length pre + length label + length url + 3) = strip url"
    by (simp add: link_url_def)
  have l: "slice ?t (length pre + 1) (length pre + length label + 1) = label"
    using slice_mid[of "length pre + 1" "pre @ ''[''" "length pre + length label + 1" label
        "'']('' @ url @ '')'' @ post"]
    by simp
  show ?thesis
    apply (subst inline_loop.simps)
    using la c ns u l assms(3) apply simp
    apply (simp add: ac_simps)
    done
qed

theorem javascript_link_suppressed_witness:
  "parse_inline ''[bad](javascript:alert(1))'' = ''bad)''"
proof -
  have "inline_loop ([] @ ''['' @ ''bad'' @ '']('' @ ''javascript:alert(1'' @ '')'' @ '')'') (length ([]::string))
        = parse_inline ''bad'' @ inline_loop ([] @ ''['' @ ''bad'' @ '']('' @ ''javascript:alert(1'' @ '')'' @ '')'')
            (length ([]::string) + length ''bad'' + length ''javascript:alert(1'' + 4)"
    by (rule javascript_link_suppressed) (simp_all add: inline_eval)
  then show ?thesis
    by (simp add: inline_eval)
qed

section \<open>Fenced code blocks\<close>

text \<open>
  Claim C6 says that a line opens a code block when it starts with three backticks
  after its indentation is stripped. The dispatcher tests \<open>line.startswith\<close> on the
  line as it is (lines 189 and 192): an indented fence opens no code block, and the
  lines become a paragraph whose backticks are read as code spans.
\<close>

theorem indented_fence_counterexample:
  "\<not> is_fence ''  ```''
   \<and> parse_markdown (''  ```'' @ [CHR 0x0A] @ ''x'' @ [CHR 0x0A] @ ''```'')
       = Some ''<p><code></code><code> x </code><code></code></p>''"
  by (simp add: inline_eval list_eval block_eval)


lemma find_fence_nearest:
  assumes "j < length ls" "is_fence (ls ! j)"
  shows "i \<le> j \<Longrightarrow> \<forall>k. i \<le> k \<and> k < j \<longrightarrow> \<not> is_fence (ls ! k) \<Longrightarrow> find_fence ls i = Some j"
proof (induction "j - i" arbitrary: i)
  case 0
  then have "i = j" by simp
  with assms show ?case by (subst find_fence.simps) simp
next
  case (Suc n)
  then have lt: "i < j" by simp
  with Suc.prems have nf: "\<not> is_fence (ls ! i)" by simp
  have "find_fence ls (i + 1) = Some j"
    using Suc.hyps(2) Suc.prems lt by (intro Suc.hyps(1)) auto
  with nf lt assms(1) show ?case by (subst find_fence.simps) simp
qed

text \<open>
  C6, amended: a line that itself begins with three backticks (no indentation is
  stripped) opens a code block when a later line begins with three backticks; the block
  is closed at the nearest such line, whatever follows the backticks on it, the body is
  the lines in between, and the dispatcher resumes after the closing line.
\<close>

theorem fence_block:
  assumes "i < j" "j < length ls" "is_fence (ls ! i)" "ls ! j = ''```'' @ trailing"
    and "\<forall>k. i < k \<and> k < j \<longrightarrow> \<not> is_fence (ls ! k)"
  shows "main_loop ls i out = main_loop ls (j + 1) (out @ [code_block ls i j])
         \<and> code_block ls i j = code_block (ls[j := ''```'']) i j"
proof -
  have "is_fence (ls ! j)" using assms(4) by (simp add: is_fence_def)
  with assms have "find_fence ls (i + 1) = Some j"
    by (intro find_fence_nearest) auto
  with assms show ?thesis
    by (subst main_loop.simps)
       (simp add: code_block_def slice_def drop_update_swap)
qed

theorem fence_block_witness:
  "parse_markdown (''```py'' @ [CHR 0x0A] @ ''<x>'' @ [CHR 0x0A] @ ''```trailing'' @ [CHR 0x0A] @ ''y'')
     = Some (''<pre><code class='' @ [CHR 0x22] @ ''language-py'' @ [CHR 0x22] @ ''>'' @ [CHR 0x0A]
             @ ''&lt;x&gt;'' @ [CHR 0x0A] @ ''</code></pre>'' @ [CHR 0x0A] @ ''<p>y</p>'')"
proof -
  let ?ls = "[''```py'', ''<x>'', ''```trailing'', ''y'']"
  have h: "\<forall>k. 0 < k \<and> k < 2 \<longrightarrow> \<not> is_fence (?ls ! k)"
  proof (intro allI impI)
    fix k :: nat
    assume "0 < k \<and> k < 2"
    then have "k = 1" by arith
    then show "\<not> is_fence (?ls ! k)" by (simp add: is_fence_def)
  qed
  have "main_loop ?ls 0 [] = main_loop ?ls (2 + 1) ([] @ [code_block ?ls 0 2])"
    using fence_block[of 0 2 ?ls "''trailing''" "[]", OF _ _ _ _ h]
    by (simp add: is_fence_def)
  then show ?thesis
    by (simp add: inline_eval list_eval block_eval)
qed

section \<open>The emphasis scan\<close>

lemma em_close_cong:
  "str_find t [ch] e = str_find t [ch] e' \<Longrightarrow> em_close t ch e = em_close t ch e'"
  by (subst em_close.simps, subst (2) em_close.simps) simp

lemma em_close_isolated:
  "e \<le> length t \<Longrightarrow> drop e t = s
     \<Longrightarrow> em_close t ch e = map_option (\<lambda>k. e + k) (isolated_close ch s)"
proof (induction ch s arbitrary: e rule: isolated_close.induct)
  case (1 ch)
  then show ?case by (subst em_close.simps) (simp add: str_find_def)
next
  case (2 ch c)
  from 2(2) have "length t - e = length [c]" by (metis length_drop)
  with 2(1) have "length t = Suc e" by simp
  with 2 show ?case by (subst em_close.simps) (simp add: str_find_def)
next
  case (3 ch c d s)
  from "3.prems" have "length (drop e t) = length s + 2" by simp
  then have len: "e + 1 < length t" by simp
  have "drop (e + 1) t = drop 1 (drop e t)" by (simp add: add.commute)
  with "3.prems" have d1: "drop (e + 1) t = d # s" by simp
  have "drop (e + 2) t = drop 2 (drop e t)" by (simp add: add.commute)
  with "3.prems" have d2: "drop (e + 2) t = s" by simp
  from d1 len have nth: "t ! (e + 1) = d"
    using nth_drop_cons[of "e + 1" t] by simp
  show ?case
  proof (cases "c = ch")
    case False
    have "str_find t [ch] e = str_find t [ch] (e + 1)"
      using "3.prems" d1 len False by (simp add: str_find_def comp_def option.map_comp)
    then have "em_close t ch e = em_close t ch (e + 1)" by (rule em_close_cong)
    also have "\<dots> = map_option (\<lambda>k. e + 1 + k) (isolated_close ch (d # s))"
      using "3.IH"(1)[OF False _ d1] len by simp
    finally show ?thesis using False by (simp add: option.map_comp comp_def)
  next
    case True
    have sf: "str_find t [ch] e = Some e"
      using "3.prems" True by (simp add: str_find_def)
    show ?thesis
    proof (cases "d = ch")
      case dT: True
      have "em_close t ch e = em_close t ch (e + 2)"
        using sf len nth dT by (subst em_close.simps) simp
      also have "\<dots> = map_option (\<lambda>k. e + 2 + k) (isolated_close ch s)"
        using "3.IH"(2)[OF _ dT _ d2] True len by simp
      finally show ?thesis using True dT by (simp add: option.map_comp comp_def ac_simps)
    next
      case dF: False
      then show ?thesis using sf len nth True by (subst em_close.simps) simp
    qed
  qed
qed

lemma startswith_at_two:
  "startswith_at t [c, c] i \<longleftrightarrow> (i + 1 < length t \<and> t ! i = c \<and> t ! (i + 1) = c)"
proof (cases "i + 1 < length t")
  case True
  then have "drop i t = t ! i # t ! (i + 1) # drop (i + 2) t"
    by (simp add: Cons_nth_drop_Suc)
  with True show ?thesis by (auto simp: startswith_at_def)
next
  case False
  then have "length (drop i t) < length [c, c]" by simp
  then have "\<not> prefix [c, c] (drop i t)"
    using prefix_length_le by fastforce
  with False show ?thesis by (simp add: startswith_at_def)
qed

text \<open>
  C9: let the cursor be at a single \<open>*\<close> or \<open>_\<close> that is not immediately doubled. If the
  scan of the specification finds an isolated closing occurrence \<open>k\<close> characters after
  the delimiter, the formatter wraps the recursively formatted interior in an emphasis
  element and moves the cursor past the close; if it finds none, the formatter emits the
  escaped delimiter and advances by one.
\<close>

theorem emphasis_scan:
  assumes "i < length t" "t ! i = ch" "ch = CHR ''*'' \<or> ch = CHR ''_''"
    and "\<not> (i + 1 < length t \<and> t ! (i + 1) = ch)"
  shows "inline_loop t i =
           (case isolated_close ch (drop (i + 1) t) of
              Some k \<Rightarrow> ''<em>'' @ parse_inline (slice t (i + 1) (i + 1 + k)) @ ''</em>''
                          @ inline_loop t (i + 1 + k + 1)
            | None \<Rightarrow> escape [ch] @ inline_loop t (i + 1))"
proof -
  have ns: "\<not> startswith_at t ''**'' i" "\<not> startswith_at t ''__'' i"
    using assms by (auto simp: startswith_at_two)
  have ec: "em_close t ch (i + 1) = map_option (\<lambda>k. i + 1 + k) (isolated_close ch (drop (i + 1) t))"
    using assms(1) by (intro em_close_isolated) auto
  show ?thesis
    apply (subst inline_loop.simps)
    using assms ns ec apply (auto split: option.splits)
    done
qed

theorem emphasis_scan_witness:
  "parse_inline ''*a**b*c*'' = ''<em>a**b</em>c*''"
proof -
  have "inline_loop ''*a**b*c*'' 0 =
           (case isolated_close (CHR ''*'') (drop (0 + 1) ''*a**b*c*'') of
              Some k \<Rightarrow> ''<em>'' @ parse_inline (slice ''*a**b*c*'' (0 + 1) (0 + 1 + k)) @ ''</em>''
                          @ inline_loop ''*a**b*c*'' (0 + 1 + k + 1)
            | None \<Rightarrow> escape [CHR ''*''] @ inline_loop ''*a**b*c*'' (0 + 1))"
    by (rule emphasis_scan) simp_all
  then show ?thesis
    by (simp add: inline_eval)
qed

section \<open>Nested lists\<close>

lemma list_loop_stop_line:
  "stop_line ls j \<Longrightarrow> list_loop ls j st h = (close_all st h, j)"
  by (subst list_loop.simps) (auto simp: stop_line_def)

lemma list_loop_stops: "stop_line ls (snd (list_loop ls i st h))"
proof (induction ls i st h rule: list_loop.induct)
  case (1 ls i st h)
  show ?case
  proof (cases "stop_line ls i")
    case True
    then show ?thesis by (simp add: list_loop_stop_line)
  next
    case False
    then obtain ltype content where
      f: "i < length ls" "\<not> is_blank (ls ! i)"
         "list_item (lstrip_sp (ls ! i)) = Some (ltype, content)"
      by (auto simp: stop_line_def)
    obtain st' h' where
      o: "open_level (close_levels st (indent_of (ls ! i)) ltype h) (indent_of (ls ! i)) ltype
            = (st', h')"
      by (cases "open_level (close_levels st (indent_of (ls ! i)) ltype h) (indent_of (ls ! i)) ltype")
    show ?thesis
    proof (cases "has_nested ls i")
      case True
      obtain nested j where n: "list_loop ls (i + 1) [] [] = (nested, j)"
        by (cases "list_loop ls (i + 1) [] []")
      have "stop_line ls (snd (list_loop ls j st'
              (h' @ ''<li>'' @ parse_inline content @ nested @ ''</li>'')))"
        using "1.IH"(2)[OF f(1,2) f(3) refl o[symmetric] True n[symmetric]] .
      then show ?thesis
        using f o True n by (subst list_loop.simps) simp
    next
      case False
      have "stop_line ls (snd (list_loop ls (i + 1) st'
              (h' @ ''<li>'' @ parse_inline content @ ''</li>'')))"
        using "1.IH"(3)[OF f(1,2) f(3) refl o[symmetric] False] .
      then show ?thesis
        using f o False by (subst list_loop.simps) simp
    qed
  qed
qed

lemma close_all_append: "close_all st h = h @ close_all st []"
proof (induction st arbitrary: h)
  case Nil
  show ?case by simp
next
  case (Cons p st)
  obtain t d where p: "p = (t, d)" by (cases p)
  show ?case
    using Cons[of "h @ ''</'' @ t @ ''>''"] Cons[of "''</'' @ t @ ''>''"] by (simp add: p)
qed

lemma close_all_tags: "close_all st [] = concat (map (\<lambda>(t, d). ''</'' @ t @ ''>'') st)"
proof (induction st)
  case Nil
  show ?case by simp
next
  case (Cons p st)
  obtain t d where p: "p = (t, d)" by (cases p)
  show ?case
    using Cons close_all_append[of st "''</'' @ t @ ''>''"] by (simp add: p)
qed

lemma close_levels_prefix: "prefix h (snd (close_levels st ind lt h))"
proof (induction st arbitrary: h)
  case Nil
  show ?case by simp
next
  case (Cons p st)
  obtain t d where p: "p = (t, d)" by (cases p)
  show ?case
    using Cons[of "h @ ''</'' @ t @ ''>''"] by (auto simp: p dest: append_prefixD)
qed

lemma open_level_prefix: "prefix (snd x) (snd (open_level x ind lt))"
  by (cases "(x, ind, lt)" rule: open_level.cases) auto

lemma list_loop_prefix: "prefix h (fst (list_loop ls i st h))"
proof (induction ls i st h rule: list_loop.induct)
  case (1 ls i st h)
  show ?case
  proof (cases "stop_line ls i")
    case True
    then show ?thesis
      using close_all_append[of st h] by (simp add: list_loop_stop_line)
  next
    case False
    then obtain ltype content where
      f: "i < length ls" "\<not> is_blank (ls ! i)"
         "list_item (lstrip_sp (ls ! i)) = Some (ltype, content)"
      by (auto simp: stop_line_def)
    obtain st' h' where
      o: "open_level (close_levels st (indent_of (ls ! i)) ltype h) (indent_of (ls ! i)) ltype
            = (st', h')"
      by (cases "open_level (close_levels st (indent_of (ls ! i)) ltype h) (indent_of (ls ! i)) ltype")
    have "prefix h (snd (close_levels st (indent_of (ls ! i)) ltype h))"
      by (rule close_levels_prefix)
    moreover have "prefix (snd (close_levels st (indent_of (ls ! i)) ltype h)) h'"
      using open_level_prefix[of "close_levels st (indent_of (ls ! i)) ltype h"
          "indent_of (ls ! i)" ltype] o by simp
    ultimately have hh: "prefix h h'" by (rule prefix_order.trans)
    show ?thesis
    proof (cases "has_nested ls i")
      case True
      obtain nested j where n: "list_loop ls (i + 1) [] [] = (nested, j)"
        by (cases "list_loop ls (i + 1) [] []")
      have "prefix (h' @ ''<li>'' @ parse_inline content @ nested @ ''</li>'')
              (fst (list_loop ls j st' (h' @ ''<li>'' @ parse_inline content @ nested @ ''</li>'')))"
        using "1.IH"(2)[OF f(1,2) f(3) refl o[symmetric] True n[symmetric]] .
      then have "prefix h' (fst (list_loop ls i st h))"
        using f o True n by (subst list_loop.simps) (simp add: append_prefixD)
      with hh show ?thesis by (rule prefix_order.trans)
    next
      case False
      have "prefix (h' @ ''<li>'' @ parse_inline content @ ''</li>'')
              (fst (list_loop ls (i + 1) st' (h' @ ''<li>'' @ parse_inline content @ ''</li>'')))"
        using "1.IH"(3)[OF f(1,2) f(3) refl o[symmetric] False] .
      then have "prefix h' (fst (list_loop ls i st h))"
        using f o False by (subst list_loop.simps) (simp add: append_prefixD)
      with hh show ?thesis by (rule prefix_order.trans)
    qed
  qed
qed

lemma isdigit_not_isspace: "isdigit c \<Longrightarrow> \<not> isspace c"
  by (auto simp: isdigit_def isspace_def Let_def)

lemma strip_Nil_iff: "strip l = [] \<longleftrightarrow> (\<forall>c \<in> set l. isspace c)"
proof -
  have "strip l = [] \<longleftrightarrow> (\<forall>c \<in> set (dropWhile isspace l). isspace c)"
    by (simp add: strip_def rstrip_def lstrip_def dropWhile_eq_Nil_conv)
  also have "\<dots> \<longleftrightarrow> dropWhile isspace l = []"
  proof
    assume a: "\<forall>c \<in> set (dropWhile isspace l). isspace c"
    show "dropWhile isspace l = []"
    proof (rule ccontr)
      assume ne: "dropWhile isspace l \<noteq> []"
      then have "\<not> isspace (hd (dropWhile isspace l))" by (rule hd_dropWhile)
      moreover have "hd (dropWhile isspace l) \<in> set (dropWhile isspace l)"
        using ne by (rule hd_in_set)
      ultimately show False using a by blast
    qed
  next
    assume e: "dropWhile isspace l = []"
    show "\<forall>c \<in> set (dropWhile isspace l). isspace c" unfolding e by simp
  qed
  also have "\<dots> \<longleftrightarrow> (\<forall>c \<in> set l. isspace c)"
    by (simp add: dropWhile_eq_Nil_conv)
  finally show ?thesis .
qed

lemma lstrip_sp_subset: "set (lstrip_sp l) \<subseteq> set l"
  by (auto simp: lstrip_sp_def dest: set_dropWhileD)

lemma list_line_head:
  assumes "is_list_line s"
  shows "s \<noteq> [] \<and> \<not> isspace (hd s)"
proof -
  from assms have ne: "s \<noteq> []" by (auto simp: is_list_line_def split: if_splits)
  show ?thesis
  proof (cases "bullet s")
    case True
    then show ?thesis using ne by (auto simp: bullet_def prefix_def isspace_def)
  next
    case False
    with assms ne have "0 < digit_run s" by (simp add: is_list_line_def ordinal_def)
    then have "takeWhile isdigit s \<noteq> []" by (simp add: digit_run_def)
    then have "isdigit (hd s)" using ne by (cases s) (auto split: if_splits)
    then show ?thesis using ne isdigit_not_isspace by simp
  qed
qed

lemma list_line_not_blank:
  assumes "is_list_line (lstrip_sp l)"
  shows "\<not> is_blank l"
proof -
  from list_line_head[OF assms] have m: "hd (lstrip_sp l) \<in> set (lstrip_sp l)"
    and ns: "\<not> isspace (hd (lstrip_sp l))" by auto
  from m lstrip_sp_subset[of l] have "hd (lstrip_sp l) \<in> set l" by blast
  with ns have "\<not> (\<forall>c \<in> set l. isspace c)" by blast
  then show ?thesis by (simp add: is_blank_def strip_Nil_iff)
qed

lemma list_line_item:
  "is_list_line s \<Longrightarrow> \<exists>lt c. list_item s = Some (lt, c) \<and> (lt = ''ul'' \<or> lt = ''ol'')"
  by (auto simp: is_list_line_def list_item_def split: if_splits)

lemma nested_opens_list:
  assumes "has_nested ls i"
  shows "prefix ''<ul>'' (fst (list_loop ls (i + 1) [] []))
         \<or> prefix ''<ol>'' (fst (list_loop ls (i + 1) [] []))"
proof -
  from assms have b: "i + 1 < length ls" and ll: "is_list_line (lstrip_sp (ls ! (i + 1)))"
    by (auto simp: has_nested_def)
  from list_line_item[OF ll] obtain lt c where
    it: "list_item (lstrip_sp (ls ! (i + 1))) = Some (lt, c)" and lt: "lt = ''ul'' \<or> lt = ''ol''"
    by auto
  have nb: "\<not> is_blank (ls ! (i + 1))" using ll by (rule list_line_not_blank)
  let ?ind = "indent_of (ls ! (i + 1))"
  let ?h = "''<'' @ lt @ ''>'' @ ''<li>'' @ parse_inline c"
  have pre: "prefix (''<'' @ lt @ ''>'') (fst (list_loop ls j st (?h @ r)))" for j st r
  proof -
    have "prefix (''<'' @ lt @ ''>'') (?h @ r)" by simp
    moreover have "prefix (?h @ r) (fst (list_loop ls j st (?h @ r)))"
      by (rule list_loop_prefix)
    ultimately show ?thesis by (rule prefix_order.trans)
  qed
  have "prefix (''<'' @ lt @ ''>'') (fst (list_loop ls (i + 1) [] []))"
  proof (cases "has_nested ls (i + 1)")
    case True
    obtain nested j where n: "list_loop ls (i + 1 + 1) [] [] = (nested, j)"
      by (cases "list_loop ls (i + 1 + 1) [] []")
    have "list_loop ls (i + 1) [] [] = list_loop ls j [(lt, ?ind)] (?h @ nested @ ''</li>'')"
      using b it nb True n by (subst list_loop.simps) simp
    then show ?thesis using pre[of j "[(lt, ?ind)]" "nested @ ''</li>''"] by simp
  next
    case False
    have "list_loop ls (i + 1) [] [] = list_loop ls (i + 1 + 1) [(lt, ?ind)] (?h @ ''</li>'')"
      using b it nb False by (subst list_loop.simps) simp
    then show ?thesis using pre[of "i + 1 + 1" "[(lt, ?ind)]" "''</li>''"] by simp
  qed
  with lt show ?thesis by auto
qed

lemma list_loop_flat:
  "i < length ls \<Longrightarrow> \<not> is_blank (ls ! i)
   \<Longrightarrow> list_item (lstrip_sp (ls ! i)) = Some (ltype, content)
   \<Longrightarrow> open_level (close_levels st (indent_of (ls ! i)) ltype h) (indent_of (ls ! i)) ltype
         = (st', h')
   \<Longrightarrow> \<not> has_nested ls i
   \<Longrightarrow> list_loop ls i st h
         = list_loop ls (i + 1) st' (h' @ ''<li>'' @ parse_inline content @ ''</li>'')"
  by (subst list_loop.simps) simp

lemma list_loop_nested:
  "i < length ls \<Longrightarrow> \<not> is_blank (ls ! i)
   \<Longrightarrow> list_item (lstrip_sp (ls ! i)) = Some (ltype, content)
   \<Longrightarrow> open_level (close_levels st (indent_of (ls ! i)) ltype h) (indent_of (ls ! i)) ltype
         = (st', h')
   \<Longrightarrow> has_nested ls i
   \<Longrightarrow> list_loop ls (i + 1) [] [] = (nested, j)
   \<Longrightarrow> list_loop ls i st h
         = list_loop ls j st' (h' @ ''<li>'' @ parse_inline content @ nested @ ''</li>'')"
  by (subst list_loop.simps) simp

lemma list_loop_cases:
  assumes stop: "\<And>i st h. stop_line ls i \<Longrightarrow> P i st h"
    and flat: "\<And>i st h ltype content st' h'.
        i < length ls \<Longrightarrow> \<not> is_blank (ls ! i)
        \<Longrightarrow> list_item (lstrip_sp (ls ! i)) = Some (ltype, content)
        \<Longrightarrow> open_level (close_levels st (indent_of (ls ! i)) ltype h) (indent_of (ls ! i)) ltype
              = (st', h')
        \<Longrightarrow> \<not> has_nested ls i
        \<Longrightarrow> P (i + 1) st' (h' @ ''<li>'' @ parse_inline content @ ''</li>'')
        \<Longrightarrow> P i st h"
    and nest: "\<And>i st h ltype content st' h' nested j.
        i < length ls \<Longrightarrow> \<not> is_blank (ls ! i)
        \<Longrightarrow> list_item (lstrip_sp (ls ! i)) = Some (ltype, content)
        \<Longrightarrow> open_level (close_levels st (indent_of (ls ! i)) ltype h) (indent_of (ls ! i)) ltype
              = (st', h')
        \<Longrightarrow> has_nested ls i
        \<Longrightarrow> list_loop ls (i + 1) [] [] = (nested, j)
        \<Longrightarrow> P (i + 1) [] []
        \<Longrightarrow> P j st' (h' @ ''<li>'' @ parse_inline content @ nested @ ''</li>'')
        \<Longrightarrow> P i st h"
  shows "P i st h"
proof -
  have "ls0 = ls \<Longrightarrow> P i st h" for ls0
  proof (induction ls0 i st h rule: list_loop.induct)
    case (1 ls0 i st h)
    note eq = "1.prems"
    note IH = "1.IH"[unfolded eq]
    show ?case
    proof (cases "stop_line ls i")
      case True
      then show ?thesis by (rule stop)
    next
      case False
      then obtain ltype content where
        f: "i < length ls" "\<not> is_blank (ls ! i)"
           "list_item (lstrip_sp (ls ! i)) = Some (ltype, content)"
        by (auto simp: stop_line_def)
      obtain st' h' where
        o: "open_level (close_levels st (indent_of (ls ! i)) ltype h) (indent_of (ls ! i)) ltype
              = (st', h')"
        by (cases "open_level (close_levels st (indent_of (ls ! i)) ltype h) (indent_of (ls ! i)) ltype")
      show ?thesis
      proof (cases "has_nested ls i")
        case True
        obtain nested j where n: "list_loop ls (i + 1) [] [] = (nested, j)"
          by (cases "list_loop ls (i + 1) [] []")
        have "P (i + 1) [] []"
          using IH(1)[OF f(1,2) f(3) refl o[symmetric] True refl] .
        moreover have "P j st' (h' @ ''<li>'' @ parse_inline content @ nested @ ''</li>'')"
          using IH(2)[OF f(1,2) f(3) refl o[symmetric] True n[symmetric] refl] .
        ultimately show ?thesis by (rule nest[OF f o True n])
      next
        case False
        have "P (i + 1) st' (h' @ ''<li>'' @ parse_inline content @ ''</li>'')"
          using IH(3)[OF f(1,2) f(3) refl o[symmetric] False refl] .
        then show ?thesis by (rule flat[OF f o False])
      qed
    qed
  qed
  then show ?thesis by simp
qed


lemma list_loop_mono: "i \<le> snd (list_loop ls i st h)"
proof (rule list_loop_cases[of ls "\<lambda>i st h. i \<le> snd (list_loop ls i st h)"])
  fix i st h
  assume "stop_line ls i"
  then show "i \<le> snd (list_loop ls i st h)" by (simp add: list_loop_stop_line)
next
  fix i st h ltype content st' h'
  assume f: "i < length ls" "\<not> is_blank (ls ! i)"
      "list_item (lstrip_sp (ls ! i)) = Some (ltype, content)"
      "open_level (close_levels st (indent_of (ls ! i)) ltype h) (indent_of (ls ! i)) ltype
        = (st', h')"
      "\<not> has_nested ls i"
    and IH: "i + 1 \<le> snd (list_loop ls (i + 1) st' (h' @ ''<li>'' @ parse_inline content @ ''</li>''))"
  from IH show "i \<le> snd (list_loop ls i st h)"
    unfolding list_loop_flat[OF f] by simp
next
  fix i st h ltype content st' h' nested j
  assume f: "i < length ls" "\<not> is_blank (ls ! i)"
      "list_item (lstrip_sp (ls ! i)) = Some (ltype, content)"
      "open_level (close_levels st (indent_of (ls ! i)) ltype h) (indent_of (ls ! i)) ltype
        = (st', h')"
      "has_nested ls i" "list_loop ls (i + 1) [] [] = (nested, j)"
    and IH1: "i + 1 \<le> snd (list_loop ls (i + 1) [] [])"
    and IH2: "j \<le> snd (list_loop ls j st' (h' @ ''<li>'' @ parse_inline content @ nested @ ''</li>''))"
  from IH1 f(6) have "i + 1 \<le> j" by simp
  with IH2 show "i \<le> snd (list_loop ls i st h)"
    unfolding list_loop_nested[OF f] by simp
qed

lemma list_loop_skips:
  "\<forall>k. i \<le> k \<and> k < snd (list_loop ls i st h) \<longrightarrow> \<not> stop_line ls k"
proof (rule list_loop_cases[of ls
      "\<lambda>i st h. \<forall>k. i \<le> k \<and> k < snd (list_loop ls i st h) \<longrightarrow> \<not> stop_line ls k"])
  fix i st h
  assume "stop_line ls i"
  then show "\<forall>k. i \<le> k \<and> k < snd (list_loop ls i st h) \<longrightarrow> \<not> stop_line ls k"
    by (auto simp: list_loop_stop_line)
next
  fix i st h ltype content st' h'
  assume f: "i < length ls" "\<not> is_blank (ls ! i)"
      "list_item (lstrip_sp (ls ! i)) = Some (ltype, content)"
      "open_level (close_levels st (indent_of (ls ! i)) ltype h) (indent_of (ls ! i)) ltype
        = (st', h')"
      "\<not> has_nested ls i"
    and IH: "\<forall>k. i + 1 \<le> k
          \<and> k < snd (list_loop ls (i + 1) st' (h' @ ''<li>'' @ parse_inline content @ ''</li>''))
          \<longrightarrow> \<not> stop_line ls k"
  have ns: "\<not> stop_line ls i" using f(1,2,3) by (simp add: stop_line_def)
  show "\<forall>k. i \<le> k \<and> k < snd (list_loop ls i st h) \<longrightarrow> \<not> stop_line ls k"
    unfolding list_loop_flat[OF f]
  proof (intro allI impI)
    fix k
    assume k: "i \<le> k
      \<and> k < snd (list_loop ls (i + 1) st' (h' @ ''<li>'' @ parse_inline content @ ''</li>''))"
    show "\<not> stop_line ls k"
    proof (cases "k = i")
      case True
      with ns show ?thesis by simp
    next
      case False
      with k IH show ?thesis by simp
    qed
  qed
next
  fix i st h ltype content st' h' nested j
  assume f: "i < length ls" "\<not> is_blank (ls ! i)"
      "list_item (lstrip_sp (ls ! i)) = Some (ltype, content)"
      "open_level (close_levels st (indent_of (ls ! i)) ltype h) (indent_of (ls ! i)) ltype
        = (st', h')"
      "has_nested ls i" "list_loop ls (i + 1) [] [] = (nested, j)"
    and IH1: "\<forall>k. i + 1 \<le> k \<and> k < snd (list_loop ls (i + 1) [] []) \<longrightarrow> \<not> stop_line ls k"
    and IH2: "\<forall>k. j \<le> k
          \<and> k < snd (list_loop ls j st' (h' @ ''<li>'' @ parse_inline content @ nested @ ''</li>''))
          \<longrightarrow> \<not> stop_line ls k"
  have ns: "\<not> stop_line ls i" using f(1,2,3) by (simp add: stop_line_def)
  show "\<forall>k. i \<le> k \<and> k < snd (list_loop ls i st h) \<longrightarrow> \<not> stop_line ls k"
    unfolding list_loop_nested[OF f]
  proof (intro allI impI)
    fix k
    assume k: "i \<le> k
      \<and> k < snd (list_loop ls j st' (h' @ ''<li>'' @ parse_inline content @ nested @ ''</li>''))"
    show "\<not> stop_line ls k"
    proof (cases "k = i")
      case True
      with ns show ?thesis by simp
    next
      case False
      show ?thesis
      proof (cases "k < j")
        case True
        with False k IH1 f(6) show ?thesis by simp
      next
        case False
        with k IH2 show ?thesis by simp
      qed
    qed
  qed
qed

lemma has_sub_iff: "has_sub sub s \<longleftrightarrow> (\<exists>p q. s = p @ sub @ q)"
proof (induction s)
  case Nil
  show ?case by (auto simp: has_sub_def)
next
  case (Cons c s)
  show ?case
  proof
    assume "has_sub sub (c # s)"
    then have "prefix sub (c # s) \<or> has_sub sub s"
      by (auto simp: has_sub_def split: if_splits)
    then show "\<exists>p q. c # s = p @ sub @ q"
    proof
      assume "prefix sub (c # s)"
      then obtain q where "c # s = sub @ q" by (auto simp: prefix_def)
      then have "c # s = [] @ sub @ q" by simp
      then show ?thesis by blast
    next
      assume "has_sub sub s"
      with Cons obtain p q where "s = p @ sub @ q" by auto
      then have "c # s = (c # p) @ sub @ q" by simp
      then show ?thesis by blast
    qed
  next
    assume "\<exists>p q. c # s = p @ sub @ q"
    then obtain p q where pq: "c # s = p @ sub @ q" by auto
    show "has_sub sub (c # s)"
    proof (cases p)
      case Nil
      with pq have "prefix sub (c # s)" by (simp add: prefix_def)
      then show ?thesis by (simp add: has_sub_def)
    next
      case (Cons d p')
      with pq have "s = p' @ sub @ q" by simp
      then have "has_sub sub s" using Cons.IH by blast
      then show ?thesis by (auto simp: has_sub_def)
    qed
  qed
qed

lemma has_sub_mid: "has_sub x m \<Longrightarrow> has_sub x (a @ m @ b)"
proof -
  assume "has_sub x m"
  then obtain p q where "m = p @ x @ q" by (auto simp: has_sub_iff)
  then have "a @ m @ b = (a @ p) @ x @ (q @ b)" by simp
  then show ?thesis unfolding has_sub_iff by blast
qed

lemma has_sub_self: "has_sub x (a @ x @ b)"
  unfolding has_sub_iff by blast


lemma open_close_prefix:
  assumes "open_level (close_levels st ind lt h) ind lt = (st', h')"
  shows "prefix h h'"
proof -
  have "prefix h (snd (close_levels st ind lt h))" by (rule close_levels_prefix)
  moreover have "prefix (snd (close_levels st ind lt h)) h'"
    using open_level_prefix[of "close_levels st ind lt h" ind lt] assms by simp
  ultimately show ?thesis by (rule prefix_order.trans)
qed

lemma list_loop_items:
  "\<forall>k lt c. i \<le> k \<and> k < snd (list_loop ls i st h)
       \<and> list_item (lstrip_sp (ls ! k)) = Some (lt, c)
     \<longrightarrow> has_sub (''<li>'' @ parse_inline c) (drop (length h) (fst (list_loop ls i st h)))"
proof (rule list_loop_cases[of ls
      "\<lambda>i st h. \<forall>k lt c. i \<le> k \<and> k < snd (list_loop ls i st h)
           \<and> list_item (lstrip_sp (ls ! k)) = Some (lt, c)
         \<longrightarrow> has_sub (''<li>'' @ parse_inline c) (drop (length h) (fst (list_loop ls i st h)))"])
  fix i st h
  assume "stop_line ls i"
  then show "\<forall>k lt c. i \<le> k \<and> k < snd (list_loop ls i st h)
           \<and> list_item (lstrip_sp (ls ! k)) = Some (lt, c)
         \<longrightarrow> has_sub (''<li>'' @ parse_inline c) (drop (length h) (fst (list_loop ls i st h)))"
    by (auto simp: list_loop_stop_line)
next
  fix i st h ltype content st' h'
  assume f: "i < length ls" "\<not> is_blank (ls ! i)"
      "list_item (lstrip_sp (ls ! i)) = Some (ltype, content)"
      "open_level (close_levels st (indent_of (ls ! i)) ltype h) (indent_of (ls ! i)) ltype
        = (st', h')"
      "\<not> has_nested ls i"
  let ?h2 = "h' @ ''<li>'' @ parse_inline content @ ''</li>''"
  let ?r = "list_loop ls (i + 1) st' ?h2"
  assume IH: "\<forall>k lt c. i + 1 \<le> k \<and> k < snd ?r \<and> list_item (lstrip_sp (ls ! k)) = Some (lt, c)
         \<longrightarrow> has_sub (''<li>'' @ parse_inline c) (drop (length ?h2) (fst ?r))"
  from open_close_prefix[OF f(4)] obtain x where x: "h' = h @ x" by (auto simp: prefix_def)
  from list_loop_prefix[of ?h2 ls "i + 1" st'] obtain tl where tl: "fst ?r = ?h2 @ tl"
    by (auto simp: prefix_def)
  have d1: "drop (length h) (fst ?r) = x @ (''<li>'' @ parse_inline content) @ (''</li>'' @ tl)"
    unfolding tl by (simp add: x)
  have d2: "drop (length ?h2) (fst ?r) = tl"
    using tl by (metis append_eq_conv_conj)
  show "\<forall>k lt c. i \<le> k \<and> k < snd (list_loop ls i st h)
           \<and> list_item (lstrip_sp (ls ! k)) = Some (lt, c)
         \<longrightarrow> has_sub (''<li>'' @ parse_inline c) (drop (length h) (fst (list_loop ls i st h)))"
    unfolding list_loop_flat[OF f]
  proof (intro allI impI)
    fix k lt c
    assume k: "i \<le> k \<and> k < snd ?r \<and> list_item (lstrip_sp (ls ! k)) = Some (lt, c)"
    show "has_sub (''<li>'' @ parse_inline c) (drop (length h) (fst ?r))"
    proof (cases "k = i")
      case True
      with k f(3) have "c = content" by simp
      then show ?thesis unfolding d1 by (simp only: has_sub_self)
    next
      case False
      with k have k2: "i + 1 \<le> k \<and> k < snd ?r
          \<and> list_item (lstrip_sp (ls ! k)) = Some (lt, c)" by simp
      from IH[rule_format, OF k2] have "has_sub (''<li>'' @ parse_inline c) tl"
        by (simp only: d2)
      then have "has_sub (''<li>'' @ parse_inline c)
                   ((x @ ''<li>'' @ parse_inline content @ ''</li>'') @ tl @ [])"
        by (rule has_sub_mid)
      then show ?thesis unfolding d1 by simp
    qed
  qed
next
  fix i st h ltype content st' h' nested j
  assume f: "i < length ls" "\<not> is_blank (ls ! i)"
      "list_item (lstrip_sp (ls ! i)) = Some (ltype, content)"
      "open_level (close_levels st (indent_of (ls ! i)) ltype h) (indent_of (ls ! i)) ltype
        = (st', h')"
      "has_nested ls i" "list_loop ls (i + 1) [] [] = (nested, j)"
  let ?h2 = "h' @ ''<li>'' @ parse_inline content @ nested @ ''</li>''"
  let ?r = "list_loop ls j st' ?h2"
  assume IH1: "\<forall>k lt c. i + 1 \<le> k \<and> k < snd (list_loop ls (i + 1) [] [])
           \<and> list_item (lstrip_sp (ls ! k)) = Some (lt, c)
         \<longrightarrow> has_sub (''<li>'' @ parse_inline c)
               (drop (length ([]::string)) (fst (list_loop ls (i + 1) [] [])))"
    and IH2: "\<forall>k lt c. j \<le> k \<and> k < snd ?r \<and> list_item (lstrip_sp (ls ! k)) = Some (lt, c)
         \<longrightarrow> has_sub (''<li>'' @ parse_inline c) (drop (length ?h2) (fst ?r))"
  from open_close_prefix[OF f(4)] obtain x where x: "h' = h @ x" by (auto simp: prefix_def)
  from list_loop_prefix[of ?h2 ls j st'] obtain tl where tl: "fst ?r = ?h2 @ tl"
    by (auto simp: prefix_def)
  have d1: "drop (length h) (fst ?r)
              = x @ (''<li>'' @ parse_inline content) @ (nested @ ''</li>'' @ tl)"
    unfolding tl by (simp add: x)
  have d2: "drop (length ?h2) (fst ?r) = tl"
    using tl by (metis append_eq_conv_conj)
  show "\<forall>k lt c. i \<le> k \<and> k < snd (list_loop ls i st h)
           \<and> list_item (lstrip_sp (ls ! k)) = Some (lt, c)
         \<longrightarrow> has_sub (''<li>'' @ parse_inline c) (drop (length h) (fst (list_loop ls i st h)))"
    unfolding list_loop_nested[OF f]
  proof (intro allI impI)
    fix k lt c
    assume k: "i \<le> k \<and> k < snd ?r \<and> list_item (lstrip_sp (ls ! k)) = Some (lt, c)"
    show "has_sub (''<li>'' @ parse_inline c) (drop (length h) (fst ?r))"
    proof (cases "k = i")
      case True
      with k f(3) have "c = content" by simp
      then show ?thesis unfolding d1 by (simp only: has_sub_self)
    next
      case ki: False
      show ?thesis
      proof (cases "k < j")
        case True
        with ki k f(6) have k1: "i + 1 \<le> k \<and> k < snd (list_loop ls (i + 1) [] [])
            \<and> list_item (lstrip_sp (ls ! k)) = Some (lt, c)" by simp
        from IH1[rule_format, OF k1] f(6) have "has_sub (''<li>'' @ parse_inline c) nested"
          by simp
        then have "has_sub (''<li>'' @ parse_inline c)
                     ((x @ ''<li>'' @ parse_inline content) @ nested @ (''</li>'' @ tl))"
          by (rule has_sub_mid)
        then show ?thesis unfolding d1 by simp
      next
        case False
        with k have k2: "j \<le> k \<and> k < snd ?r
            \<and> list_item (lstrip_sp (ls ! k)) = Some (lt, c)" by simp
        from IH2[rule_format, OF k2] have "has_sub (''<li>'' @ parse_inline c) tl"
          by (simp only: d2)
        then have "has_sub (''<li>'' @ parse_inline c)
                     ((x @ ''<li>'' @ parse_inline content @ nested @ ''</li>'') @ tl @ [])"
          by (rule has_sub_mid)
        then show ?thesis unfolding d1 by simp
      qed
    qed
  qed
qed

lemma list_item_type:
  "list_item s = Some (lt, c) \<Longrightarrow> lt = ''ul'' \<or> lt = ''ol''"
  by (auto simp: list_item_def split: if_splits)

lemma close_levels_stack_ok:
  "stack_ok st \<Longrightarrow> stack_ok (fst (close_levels st ind lt h))"
proof (induction st arbitrary: h)
  case Nil
  show ?case by (simp add: stack_ok_def)
next
  case (Cons p st)
  obtain t d where p: "p = (t, d)" by (cases p)
  from Cons.prems have "stack_ok st" by (simp add: stack_ok_def)
  from Cons.IH[OF this] Cons.prems show ?case by (simp add: p)
qed

lemma open_close_stack:
  assumes "stack_ok st" "lt = ''ul'' \<or> lt = ''ol''"
    and "open_level (close_levels st ind lt h) ind lt = (st', h')"
  shows "st' \<noteq> [] \<and> stack_ok st'"
proof -
  obtain s1 h1 where c: "close_levels st ind lt h = (s1, h1)"
    by (cases "close_levels st ind lt h")
  with close_levels_stack_ok[OF assms(1), of ind lt h] have ok: "stack_ok s1" by simp
  show ?thesis
  proof (cases s1)
    case Nil
    with assms(2,3) c show ?thesis by (auto simp: stack_ok_def)
  next
    case (Cons p s2)
    obtain t d where p: "p = (t, d)" by (cases p)
    with Cons assms(2,3) c ok show ?thesis
      by (auto simp: stack_ok_def split: if_splits)
  qed
qed

lemma close_all_suffix:
  assumes "st \<noteq> []" "stack_ok st"
  shows "suffix ''</ul>'' (close_all st h) \<or> suffix ''</ol>'' (close_all st h)"
proof -
  from assms(1) obtain s0 p where st: "st = s0 @ [p]" by (cases st rule: rev_cases) auto
  obtain t d where p: "p = (t, d)" by (cases p)
  from assms(2) have t: "t = ''ul'' \<or> t = ''ol''" by (auto simp: stack_ok_def st p)
  have "close_all st h
          = (h @ concat (map (\<lambda>(t, d). ''</'' @ t @ ''>'') s0)) @ ''</'' @ t @ ''>''"
    by (subst close_all_append) (simp add: close_all_tags st p)
  then have "suffix (''</'' @ t @ ''>'') (close_all st h)"
    unfolding suffix_def by blast
  with t show ?thesis by auto
qed

lemma list_loop_closes:
  "stack_ok st \<and> (st \<noteq> [] \<or> \<not> stop_line ls i)
     \<longrightarrow> suffix ''</ul>'' (fst (list_loop ls i st h)) \<or> suffix ''</ol>'' (fst (list_loop ls i st h))"
proof (rule list_loop_cases[of ls
      "\<lambda>i st h. stack_ok st \<and> (st \<noteq> [] \<or> \<not> stop_line ls i)
         \<longrightarrow> suffix ''</ul>'' (fst (list_loop ls i st h))
             \<or> suffix ''</ol>'' (fst (list_loop ls i st h))"])
  fix i st h
  assume "stop_line ls i"
  then show "stack_ok st \<and> (st \<noteq> [] \<or> \<not> stop_line ls i)
         \<longrightarrow> suffix ''</ul>'' (fst (list_loop ls i st h))
             \<or> suffix ''</ol>'' (fst (list_loop ls i st h))"
    using close_all_suffix[of st h] by (auto simp: list_loop_stop_line)
next
  fix i st h ltype content st' h'
  assume f: "i < length ls" "\<not> is_blank (ls ! i)"
      "list_item (lstrip_sp (ls ! i)) = Some (ltype, content)"
      "open_level (close_levels st (indent_of (ls ! i)) ltype h) (indent_of (ls ! i)) ltype
        = (st', h')"
      "\<not> has_nested ls i"
  let ?r = "list_loop ls (i + 1) st' (h' @ ''<li>'' @ parse_inline content @ ''</li>'')"
  assume IH: "stack_ok st' \<and> (st' \<noteq> [] \<or> \<not> stop_line ls (i + 1))
         \<longrightarrow> suffix ''</ul>'' (fst ?r) \<or> suffix ''</ol>'' (fst ?r)"
  show "stack_ok st \<and> (st \<noteq> [] \<or> \<not> stop_line ls i)
         \<longrightarrow> suffix ''</ul>'' (fst (list_loop ls i st h))
             \<or> suffix ''</ol>'' (fst (list_loop ls i st h))"
    unfolding list_loop_flat[OF f]
  proof
    assume "stack_ok st \<and> (st \<noteq> [] \<or> \<not> stop_line ls i)"
    then have "st' \<noteq> [] \<and> stack_ok st'"
      using open_close_stack[OF _ list_item_type[OF f(3)] f(4)] by simp
    with IH show "suffix ''</ul>'' (fst ?r) \<or> suffix ''</ol>'' (fst ?r)" by simp
  qed
next
  fix i st h ltype content st' h' nested j
  assume f: "i < length ls" "\<not> is_blank (ls ! i)"
      "list_item (lstrip_sp (ls ! i)) = Some (ltype, content)"
      "open_level (close_levels st (indent_of (ls ! i)) ltype h) (indent_of (ls ! i)) ltype
        = (st', h')"
      "has_nested ls i" "list_loop ls (i + 1) [] [] = (nested, j)"
  let ?r = "list_loop ls j st' (h' @ ''<li>'' @ parse_inline content @ nested @ ''</li>'')"
  assume IH2: "stack_ok st' \<and> (st' \<noteq> [] \<or> \<not> stop_line ls j)
         \<longrightarrow> suffix ''</ul>'' (fst ?r) \<or> suffix ''</ol>'' (fst ?r)"
  show "stack_ok st \<and> (st \<noteq> [] \<or> \<not> stop_line ls i)
         \<longrightarrow> suffix ''</ul>'' (fst (list_loop ls i st h))
             \<or> suffix ''</ol>'' (fst (list_loop ls i st h))"
    unfolding list_loop_nested[OF f]
  proof
    assume "stack_ok st \<and> (st \<noteq> [] \<or> \<not> stop_line ls i)"
    then have "st' \<noteq> [] \<and> stack_ok st'"
      using open_close_stack[OF _ list_item_type[OF f(3)] f(4)] by simp
    with IH2 show "suffix ''</ul>'' (fst ?r) \<or> suffix ''</ol>'' (fst ?r)" by simp
  qed
qed

lemma has_nested_next:
  assumes "has_nested ls i"
  shows "\<not> stop_line ls (i + 1)"
proof -
  from assms have b: "i + 1 < length ls" and ll: "is_list_line (lstrip_sp (ls ! (i + 1)))"
    by (auto simp: has_nested_def)
  from list_line_item[OF ll] list_line_not_blank[OF ll] b show ?thesis
    by (auto simp: stop_line_def)
qed


text \<open>
  C7: let line \<open>i\<close> be a list item and let the next line be a list line that is more
  indented (\<open>has_nested\<close>). From any state of the assembler, the output is the buffer
  after the list of line \<open>i\<close> has been opened, then the opening item tag, the
  inline-formatted content of line \<open>i\<close>, the markup \<open>nested\<close> that the recursive call
  returns, the closing item tag, and after it nothing but the closing tags of the lists
  still open. The recursive call runs to the first line \<open>j\<close> at which the assembler
  stops (the end of the input, a blank line or a line that is no list item): every line
  between \<open>i\<close> and \<open>j\<close> is a list item, and the item element of each of them stands in
  \<open>nested\<close>, which begins with the opening tag and ends with the closing tag of a list.
  So every child line has its item inside the element of the parent item, between its
  content and its closing tag, and none follows it as a sibling.
\<close>

theorem nested_list_inside_item:
  assumes "i < length ls"
    and "list_item (lstrip_sp (ls ! i)) = Some (ltype, content)"
    and "has_nested ls i"
    and "open_level (close_levels st (indent_of (ls ! i)) ltype h) (indent_of (ls ! i)) ltype
           = (st', h')"
    and "parse_list ls (i + 1) (indent_of (ls ! (i + 1))) = (nested, j)"
  shows "list_loop ls i st h
           = (h' @ ''<li>'' @ parse_inline content @ nested @ ''</li>''
                 @ concat (map (\<lambda>(t, d). ''</'' @ t @ ''>'') st'), j)
         \<and> (prefix ''<ul>'' nested \<or> prefix ''<ol>'' nested)
         \<and> (suffix ''</ul>'' nested \<or> suffix ''</ol>'' nested)
         \<and> i + 1 < j \<and> stop_line ls j
         \<and> (\<forall>k. i < k \<and> k < j \<longrightarrow> \<not> stop_line ls k)
         \<and> (\<forall>k lt c. i < k \<and> k < j \<and> list_item (lstrip_sp (ls ! k)) = Some (lt, c)
               \<longrightarrow> has_sub (''<li>'' @ parse_inline c) nested)"
proof -
  from assms(3) have nb: "\<not> is_blank (ls ! i)" by (simp add: has_nested_def)
  from assms(5) have n: "list_loop ls (i + 1) [] [] = (nested, j)"
    by (simp add: parse_list_def)
  have sj: "stop_line ls j"
    using list_loop_stops[of ls "i + 1" "[]" "[]"] n by simp
  then have "list_loop ls j st' (h' @ ''<li>'' @ parse_inline content @ nested @ ''</li>'')
               = (close_all st' (h' @ ''<li>'' @ parse_inline content @ nested @ ''</li>''), j)"
    by (rule list_loop_stop_line)
  then have "list_loop ls i st h
               = (close_all st' (h' @ ''<li>'' @ parse_inline content @ nested @ ''</li>''), j)"
    unfolding list_loop_nested[OF assms(1) nb assms(2,4,3) n] .
  then have 1: "list_loop ls i st h
           = (h' @ ''<li>'' @ parse_inline content @ nested @ ''</li>''
                 @ concat (map (\<lambda>(t, d). ''</'' @ t @ ''>'') st'), j)"
    by (subst (asm) close_all_append) (simp add: close_all_tags)
  have 2: "prefix ''<ul>'' nested \<or> prefix ''<ol>'' nested"
    using nested_opens_list[OF assms(3)] n by simp
  have nn: "\<not> stop_line ls (i + 1)" using assms(3) by (rule has_nested_next)
  have 3: "suffix ''</ul>'' nested \<or> suffix ''</ol>'' nested"
    using list_loop_closes[of "[]" ls "i + 1" "[]"] nn n by (simp add: stack_ok_def)
  have "i + 1 \<le> j" using list_loop_mono[of "i + 1" ls "[]" "[]"] n by simp
  moreover have "j \<noteq> i + 1" using sj nn by auto
  ultimately have 4: "i + 1 < j" by simp
  have 5: "\<forall>k. i < k \<and> k < j \<longrightarrow> \<not> stop_line ls k"
    using list_loop_skips[of "i + 1" ls "[]" "[]"] n by (simp add: Suc_le_eq)
  have 6: "\<forall>k lt c. i < k \<and> k < j \<and> list_item (lstrip_sp (ls ! k)) = Some (lt, c)
               \<longrightarrow> has_sub (''<li>'' @ parse_inline c) nested"
    using list_loop_items[of "i + 1" ls "[]" "[]"] n by (simp add: Suc_le_eq)
  from 1 2 3 4 sj 5 6 show ?thesis by blast
qed

theorem nested_list_inside_item_witness:
  "list_loop [''- a'', ''  - b'', ''  - c''] 0 [] []
     = (''<ul><li>a<ul><li>b</li><li>c</li></ul></li></ul>'', 3)
   \<and> stop_line [''- a'', ''  - b'', ''  - c''] 3
   \<and> \<not> stop_line [''- a'', ''  - b'', ''  - c''] 2
   \<and> has_sub ''<li>c'' ''<ul><li>b</li><li>c</li></ul>''"
proof -
  let ?ls = "[''- a'', ''  - b'', ''  - c'']"
  let ?nested = "''<ul><li>b</li><li>c</li></ul>''"
  have p: "0 < length ?ls" "list_item (lstrip_sp (?ls ! 0)) = Some (''ul'', ''a'')"
    "has_nested ?ls 0"
    "open_level (close_levels [] (indent_of (?ls ! 0)) ''ul'' []) (indent_of (?ls ! 0)) ''ul''
       = ([(''ul'', 0)], ''<ul>'')"
    "parse_list ?ls (0 + 1) (indent_of (?ls ! (0 + 1))) = (?nested, 3)"
    by (simp_all add: inline_eval list_eval)
  note u = nested_list_inside_item[OF p]
  from u have 1: "list_loop ?ls 0 [] []
      = (''<ul>'' @ ''<li>'' @ parse_inline ''a'' @ ?nested @ ''</li>''
           @ concat (map (\<lambda>(t, d). ''</'' @ t @ ''>'') [(''ul'', 0)]), 3)"
    by simp
  from u have 2: "stop_line ?ls 3" by blast
  from u have "\<forall>k. 0 < k \<and> k < 3 \<longrightarrow> \<not> stop_line ?ls k" by blast
  then have 3: "\<not> stop_line ?ls 2" by simp
  from u have it: "\<forall>k lt c. 0 < k \<and> k < 3 \<and> list_item (lstrip_sp (?ls ! k)) = Some (lt, c)
               \<longrightarrow> has_sub (''<li>'' @ parse_inline c) ?nested" by blast
  have k: "0 < (2::nat) \<and> (2::nat) < 3 \<and> list_item (lstrip_sp (?ls ! 2)) = Some (''ul'', ''c'')"
    by (simp add: list_eval)
  from it[rule_format, OF k] have 4: "has_sub ''<li>c'' ?nested" by (simp add: inline_eval)
  from 1 have e: "list_loop ?ls 0 [] [] = (''<ul><li>a<ul><li>b</li><li>c</li></ul></li></ul>'', 3)"
    by (simp add: inline_eval)
  from e 2 3 4 show ?thesis by blast
qed

section \<open>The numeral of an ordered item\<close>

lemma line_view_eqD:
  assumes "line_view a = line_view b"
  shows "is_blank a = is_blank b" "indent_of a = indent_of b"
    "list_item (lstrip_sp a) = list_item (lstrip_sp b)"
    "is_list_line (lstrip_sp a) = is_list_line (lstrip_sp b)"
  using assms by (simp_all add: line_view_def)

lemma list_loop_view_cong:
  "length ls = length ls' \<Longrightarrow> \<forall>k < length ls. line_view (ls ! k) = line_view (ls' ! k)
     \<Longrightarrow> list_loop ls i st h = list_loop ls' i st h"
proof (induction ls i st h rule: list_loop.induct)
  case (1 ls i st h)
  note len = "1.prems"(1)
  have v: "line_view (ls ! k) = line_view (ls' ! k)" if "k < length ls" for k
    using "1.prems"(2) that by simp
  have sl: "stop_line ls i = stop_line ls' i"
    using len line_view_eqD(1,3)[OF v[of i]] by (auto simp: stop_line_def)
  have hn: "has_nested ls i = has_nested ls' i"
  proof (cases "i + 1 < length ls")
    case True
    then show ?thesis
      using len line_view_eqD(1,2)[OF v[of i]] line_view_eqD(2,4)[OF v[of "i + 1"]]
      by (simp add: has_nested_def)
  next
    case False
    then show ?thesis using len by (simp add: has_nested_def)
  qed
  show ?case
  proof (cases "stop_line ls i")
    case True
    then show ?thesis using sl by (simp add: list_loop_stop_line)
  next
    case False
    then obtain ltype content where
      f: "i < length ls" "\<not> is_blank (ls ! i)"
         "list_item (lstrip_sp (ls ! i)) = Some (ltype, content)"
      by (auto simp: stop_line_def)
    have f': "i < length ls'" "\<not> is_blank (ls' ! i)"
         "list_item (lstrip_sp (ls' ! i)) = Some (ltype, content)"
         "indent_of (ls' ! i) = indent_of (ls ! i)"
      using f len line_view_eqD[OF v[OF f(1)]] by simp_all
    obtain st' h' where
      o: "open_level (close_levels st (indent_of (ls ! i)) ltype h) (indent_of (ls ! i)) ltype
            = (st', h')"
      by (cases "open_level (close_levels st (indent_of (ls ! i)) ltype h) (indent_of (ls ! i)) ltype")
    show ?thesis
    proof (cases "has_nested ls i")
      case True
      obtain nested j where n: "list_loop ls (i + 1) [] [] = (nested, j)"
        by (cases "list_loop ls (i + 1) [] []")
      have n': "list_loop ls' (i + 1) [] [] = (nested, j)"
        using "1.IH"(1)[OF f(1,2) f(3) refl o[symmetric] True "1.prems"] n by simp
      have "list_loop ls j st' (h' @ ''<li>'' @ parse_inline content @ nested @ ''</li>'')
              = list_loop ls' j st' (h' @ ''<li>'' @ parse_inline content @ nested @ ''</li>'')"
        using "1.IH"(2)[OF f(1,2) f(3) refl o[symmetric] True n[symmetric] "1.prems"] .
      moreover have "list_loop ls i st h
              = list_loop ls j st' (h' @ ''<li>'' @ parse_inline content @ nested @ ''</li>'')"
        using f o True n by (subst list_loop.simps) simp
      moreover have "list_loop ls' i st h
              = list_loop ls' j st' (h' @ ''<li>'' @ parse_inline content @ nested @ ''</li>'')"
        using f' o True hn n' by (subst list_loop.simps) simp
      ultimately show ?thesis by simp
    next
      case False
      have "list_loop ls (i + 1) st' (h' @ ''<li>'' @ parse_inline content @ ''</li>'')
              = list_loop ls' (i + 1) st' (h' @ ''<li>'' @ parse_inline content @ ''</li>'')"
        using "1.IH"(3)[OF f(1,2) f(3) refl o[symmetric] False "1.prems"] .
      moreover have "list_loop ls i st h
              = list_loop ls (i + 1) st' (h' @ ''<li>'' @ parse_inline content @ ''</li>'')"
        using f o False by (subst list_loop.simps) simp
      moreover have "list_loop ls' i st h
              = list_loop ls' (i + 1) st' (h' @ ''<li>'' @ parse_inline content @ ''</li>'')"
        using f' o False hn by (subst list_loop.simps) simp
      ultimately show ?thesis by simp
    qed
  qed
qed

lemma isdigit_chars:
  "\<not> isdigit (CHR '' '')" "\<not> isdigit (CHR ''.'')" "\<not> isdigit (CHR ''-'')"
  "\<not> isdigit (CHR ''*'')" "\<not> isdigit (CHR ''+'')"
  by (simp_all add: isdigit_def)

lemma ordinal_line_view:
  assumes "ds \<noteq> []" "\<forall>c \<in> set ds. isdigit c"
  shows "line_view (replicate n (CHR '' '') @ ds @ ''. '' @ rest)
           = (False, n, Some (''ol'', rest), True)"
proof -
  let ?s = "ds @ ''. '' @ rest"
  obtain d ds0 where ds: "ds = d # ds0" using assms(1) by (cases ds) auto
  with assms(2) have d: "isdigit d" by simp
  then have dn: "d \<noteq> CHR '' ''" "d \<noteq> CHR ''-''" "d \<noteq> CHR ''*''" "d \<noteq> CHR ''+''"
    using isdigit_chars by auto
  have "dropWhile (\<lambda>c. c = CHR '' '') (replicate n (CHR '' '') @ ?s)
          = dropWhile (\<lambda>c. c = CHR '' '') ?s"
    by (rule dropWhile_append2) simp
  then have ls: "lstrip_sp (replicate n (CHR '' '') @ ?s) = ?s"
    using dn(1) by (simp add: lstrip_sp_def ds)
  have ind: "indent_of (replicate n (CHR '' '') @ ?s) = n"
    unfolding indent_of_def ls by simp
  have nb: "\<not> bullet ?s" using dn by (simp add: bullet_def ds)
  have "takeWhile isdigit (ds @ CHR ''.'' # CHR '' '' # rest) = ds"
    using assms(2) isdigit_chars(2) by (simp add: takeWhile_tail)
  then have dr: "digit_run ?s = length ds" by (simp add: digit_run_def)
  have "slice ?s (length ds + 1) (length ds + 2) = '' ''"
    by (simp add: slice_def)
  then have ord: "ordinal ?s (length ds)"
    using assms(1) by (simp add: ordinal_def nth_append)
  have li: "list_item ?s = Some (''ol'', rest)"
    using nb ord dr by (simp add: list_item_def)
  have ll: "is_list_line ?s"
    using nb ord dr by (simp add: is_list_line_def)
  have "\<not> is_blank (replicate n (CHR '' '') @ ?s)"
    by (rule list_line_not_blank) (simp only: ls ll)
  with ls ind li ll show ?thesis by (simp only: line_view_def)
qed

text \<open>
  C10: let line \<open>k\<close> be an ordered-list line: \<open>n\<close> spaces, a numeral \<open>ds\<close>, a full stop,
  a space and the content. Replacing the numeral by any other numeral \<open>ds'\<close>, of any
  length, changes neither the markup nor the index that the list assembler returns,
  from whatever line it starts. A single such line gives a bare \<open><ol>\<close> with one item
  that holds the formatted content only: the numeral is not in the output, and the list
  element has no attribute.
\<close>

theorem ordinal_numeral_discarded:
  assumes "k < length ls"
    and "ls ! k = replicate n (CHR '' '') @ ds @ ''. '' @ rest"
    and "ds \<noteq> []" "\<forall>c \<in> set ds. isdigit c"
    and "ds' \<noteq> []" "\<forall>c \<in> set ds'. isdigit c"
  shows "parse_list (ls[k := replicate n (CHR '' '') @ ds' @ ''. '' @ rest]) start base
           = parse_list ls start base
         \<and> parse_list [replicate n (CHR '' '') @ ds @ ''. '' @ rest] 0 base
           = (''<ol><li>'' @ parse_inline rest @ ''</li></ol>'', 1)"
proof -
  let ?l = "replicate n (CHR '' '') @ ds @ ''. '' @ rest"
  let ?l' = "replicate n (CHR '' '') @ ds' @ ''. '' @ rest"
  have same: "line_view ?l' = line_view ?l"
    using ordinal_line_view[OF assms(3,4)] ordinal_line_view[OF assms(5,6)] by simp
  have "\<forall>j < length (ls[k := ?l']). line_view ((ls[k := ?l']) ! j) = line_view (ls ! j)"
    using assms(1,2) same by (auto simp: nth_list_update)
  then have "list_loop (ls[k := ?l']) start [] [] = list_loop ls start [] []"
    by (intro list_loop_view_cong) simp_all
  moreover have "list_loop [?l] 0 [] [] = (''<ol><li>'' @ parse_inline rest @ ''</li></ol>'', 1)"
  proof -
    from ordinal_line_view[OF assms(3,4), of n rest]
    have v: "\<not> is_blank ?l" "indent_of ?l = n" "list_item (lstrip_sp ?l) = Some (''ol'', rest)"
      by (simp_all add: line_view_def)
    have "list_loop [?l] 0 [] []
            = list_loop [?l] (0 + 1) [(''ol'', n)] (''<ol>'' @ ''<li>'' @ parse_inline rest @ ''</li>'')"
      using v by (subst list_loop.simps) (simp add: has_nested_def)
    also have "\<dots> = (''<ol><li>'' @ parse_inline rest @ ''</li></ol>'', 1)"
      by (subst list_loop.simps) simp
    finally show ?thesis .
  qed
  ultimately show ?thesis by (simp add: parse_list_def)
qed

theorem ordinal_numeral_discarded_witness:
  "parse_list [''- a'', ''  1234. b'', ''  8. c''] 0 0 = parse_list [''- a'', ''  7. b'', ''  8. c''] 0 0
   \<and> parse_list [''  7. b''] 0 0 = (''<ol><li>b</li></ol>'', 1)"
proof -
  have "parse_list ([''- a'', ''  7. b'', ''  8. c''][1 := replicate 2 (CHR '' '') @ ''1234'' @ ''. '' @ ''b'']) 0 0
           = parse_list [''- a'', ''  7. b'', ''  8. c''] 0 0
         \<and> parse_list [replicate 2 (CHR '' '') @ ''7'' @ ''. '' @ ''b''] 0 0
           = (''<ol><li>'' @ parse_inline ''b'' @ ''</li></ol>'', 1)"
    by (rule ordinal_numeral_discarded) (simp_all add: isdigit_def numeral_2_eq_2)
  then show ?thesis by (simp add: inline_eval numeral_2_eq_2)
qed

section \<open>The branches of the inline span formatter\<close>

lemma pcdata_escape_char: "pcdata s \<Longrightarrow> pcdata (escape_char q c @ s)"
  unfolding escape_char_def
  by (auto intro: pc_char pc_entity[of "''&amp;''", simplified] pc_entity[of "''&lt;''", simplified]
      pc_entity[of "''&gt;''", simplified] pc_entity[of "''&quot;''", simplified]
      pc_entity[of "''&#x27;''", simplified] simp: entities_def)

lemma pcdata_escape_q: "pcdata (escape_q s q)"
  by (induction s) (auto simp: escape_q_def intro: pc_empty pcdata_escape_char)

lemma pcdata_escape: "pcdata (escape s)"
  by (simp add: escape_def pcdata_escape_q)

lemma attr_value_escape_char: "attr_value s \<Longrightarrow> attr_value (escape_char True c @ s)"
  unfolding escape_char_def
  by (auto intro: av_char av_entity[of "''&amp;''", simplified] av_entity[of "''&lt;''", simplified]
      av_entity[of "''&gt;''", simplified] av_entity[of "''&quot;''", simplified]
      av_entity[of "''&#x27;''", simplified] simp: entities_def)

lemma attr_value_escape: "attr_value (escape_q s True)"
  by (induction s) (auto simp: escape_q_def intro: av_empty attr_value_escape_char)

lemma inline_html_append: "inline_html a \<Longrightarrow> inline_html b \<Longrightarrow> inline_html (a @ b)"
proof (induction rule: inline_html.induct)
  case ih_empty
  then show ?case by simp
next
  case (ih_text a s)
  from ih_text.hyps(1) ih_text.IH[OF ih_text.prems] have "inline_html (a @ (s @ b))"
    by (rule inline_html.ih_text)
  then show ?case by simp
next
  case (ih_code c s)
  from ih_code.hyps(1) ih_code.IH[OF ih_code.prems]
  have "inline_html (''<code>'' @ c @ ''</code>'' @ (s @ b))" by (rule inline_html.ih_code)
  then show ?case by simp
next
  case (ih_strong c s)
  from ih_strong.hyps(1) ih_strong.IH(2)[OF ih_strong.prems]
  have "inline_html (''<strong>'' @ c @ ''</strong>'' @ (s @ b))" by (rule inline_html.ih_strong)
  then show ?case by simp
next
  case (ih_em c s)
  from ih_em.hyps(1) ih_em.IH(2)[OF ih_em.prems]
  have "inline_html (''<em>'' @ c @ ''</em>'' @ (s @ b))" by (rule inline_html.ih_em)
  then show ?case by simp
next
  case (ih_anchor u c s)
  from ih_anchor.hyps(1,2) ih_anchor.IH(2)[OF ih_anchor.prems]
  have "inline_html (''<a href='' @ [CHR 0x22] @ u @ [CHR 0x22] @ ''>'' @ c @ ''</a>'' @ (s @ b))"
    by (rule inline_html.ih_anchor)
  then show ?case by simp
qed

lemma inline_html_pcdata: "pcdata a \<Longrightarrow> inline_html a"
  using ih_text[OF _ ih_empty] by simp


lemma inline_loop_end: "\<not> i < length t \<Longrightarrow> inline_loop t i = []"
  by (subst inline_loop.simps) simp

lemma inline_loop_code:
  "i < length t \<Longrightarrow> t ! i = CHR ''`'' \<Longrightarrow> str_find t ''`'' (i + 1) = Some e
   \<Longrightarrow> inline_loop t i
         = ''<code>'' @ escape (slice t (i + 1) e) @ ''</code>'' @ inline_loop t (e + 1)"
  by (subst inline_loop.simps) simp

lemma inline_loop_code_open:
  "i < length t \<Longrightarrow> t ! i = CHR ''`'' \<Longrightarrow> str_find t ''`'' (i + 1) = None
   \<Longrightarrow> inline_loop t i = escape [t ! i] @ inline_loop t (i + 1)"
  by (subst inline_loop.simps) simp

lemma inline_loop_strong:
  "i < length t \<Longrightarrow> t ! i \<noteq> CHR ''`''
   \<Longrightarrow> startswith_at t ''**'' i \<or> startswith_at t ''__'' i
   \<Longrightarrow> str_find t (slice t i (i + 2)) (i + 2) = Some e
   \<Longrightarrow> inline_loop t i
         = ''<strong>'' @ parse_inline (slice t (i + 2) e) @ ''</strong>'' @ inline_loop t (e + 2)"
  by (subst inline_loop.simps) simp

lemma inline_loop_strong_open:
  "i < length t \<Longrightarrow> t ! i \<noteq> CHR ''`''
   \<Longrightarrow> startswith_at t ''**'' i \<or> startswith_at t ''__'' i
   \<Longrightarrow> str_find t (slice t i (i + 2)) (i + 2) = None
   \<Longrightarrow> inline_loop t i = escape (slice t i (i + 2)) @ inline_loop t (i + 2)"
  by (subst inline_loop.simps) simp

lemma inline_loop_doubled:
  "i < length t \<Longrightarrow> t ! i \<noteq> CHR ''`''
   \<Longrightarrow> \<not> (startswith_at t ''**'' i \<or> startswith_at t ''__'' i)
   \<Longrightarrow> t ! i = CHR ''*'' \<or> t ! i = CHR ''_''
   \<Longrightarrow> i + 1 < length t \<and> t ! (i + 1) = t ! i
   \<Longrightarrow> inline_loop t i = escape [t ! i, t ! i] @ inline_loop t (i + 2)"
  by (subst inline_loop.simps) simp

lemma inline_loop_em:
  "i < length t \<Longrightarrow> t ! i \<noteq> CHR ''`''
   \<Longrightarrow> \<not> (startswith_at t ''**'' i \<or> startswith_at t ''__'' i)
   \<Longrightarrow> t ! i = CHR ''*'' \<or> t ! i = CHR ''_''
   \<Longrightarrow> \<not> (i + 1 < length t \<and> t ! (i + 1) = t ! i)
   \<Longrightarrow> em_close t (t ! i) (i + 1) = Some e
   \<Longrightarrow> inline_loop t i
         = ''<em>'' @ parse_inline (slice t (i + 1) e) @ ''</em>'' @ inline_loop t (e + 1)"
  by (subst inline_loop.simps) auto

lemma inline_loop_em_open:
  "i < length t \<Longrightarrow> t ! i \<noteq> CHR ''`''
   \<Longrightarrow> \<not> (startswith_at t ''**'' i \<or> startswith_at t ''__'' i)
   \<Longrightarrow> t ! i = CHR ''*'' \<or> t ! i = CHR ''_''
   \<Longrightarrow> \<not> (i + 1 < length t \<and> t ! (i + 1) = t ! i)
   \<Longrightarrow> em_close t (t ! i) (i + 1) = None
   \<Longrightarrow> inline_loop t i = escape [t ! i] @ inline_loop t (i + 1)"
  by (subst inline_loop.simps) auto

lemma inline_loop_link:
  "i < length t \<Longrightarrow> t ! i = CHR ''[''
   \<Longrightarrow> link_at t i = Some (cb, cp)
   \<Longrightarrow> inline_loop t i
         = (if \<not> prefix ''javascript:'' (lower (link_url t cb cp))
            then ''<a href='' @ [CHR 0x22] @ escape_q (link_url t cb cp) True @ [CHR 0x22] @ ''>''
                   @ parse_inline (slice t (i + 1) cb) @ ''</a>''
            else parse_inline (slice t (i + 1) cb))
           @ inline_loop t (cp + 1)"
  by (subst inline_loop.simps) (simp add: startswith_at_two)

lemma inline_loop_link_open:
  "i < length t \<Longrightarrow> t ! i = CHR ''['' \<Longrightarrow> link_at t i = None
   \<Longrightarrow> inline_loop t i = escape [t ! i] @ inline_loop t (i + 1)"
  by (subst inline_loop.simps) (simp add: startswith_at_two)

lemma inline_loop_default:
  "i < length t \<Longrightarrow> t ! i \<noteq> CHR ''`'' \<Longrightarrow> t ! i \<noteq> CHR ''*'' \<Longrightarrow> t ! i \<noteq> CHR ''_''
   \<Longrightarrow> t ! i \<noteq> CHR ''[''
   \<Longrightarrow> inline_loop t i = escape [t ! i] @ inline_loop t (i + 1)"
  by (subst inline_loop.simps) (auto simp: startswith_at_two)

lemma parse_inline_html:
  "inline_html (parse_inline t)" "inline_html (inline_loop t i)"
proof (induction t and t i rule: parse_inline_inline_loop.induct)
  case (1 t)
  show ?case
  proof (cases "MAX_INLINE_CHARS < length t")
    case True
    then show ?thesis
      by (subst parse_inline.simps) (simp add: inline_html_pcdata pcdata_escape)
  next
    case False
    with 1 show ?thesis by (subst parse_inline.simps) simp
  qed
next
  case (2 t i)
  note esc = inline_html_pcdata[OF pcdata_escape]
  show ?case
  proof (cases "i < length t")
    case False
    then show ?thesis by (simp add: inline_loop_end ih_empty)
  next
    case lt: True
    show ?thesis
    proof (cases "t ! i = CHR ''`''")
      case bt: True
      show ?thesis
      proof (cases "str_find t ''`'' (i + 1)")
        case None
        have "inline_html (inline_loop t (i + 1))"
          by (rule "2.IH"(1)[OF lt bt None])
        with esc show ?thesis
          unfolding inline_loop_code_open[OF lt bt None] by (rule inline_html_append)
      next
        case (Some e)
        have "inline_html (inline_loop t (e + 1))"
          by (rule "2.IH"(2)[OF lt bt Some])
        with pcdata_escape show ?thesis
          unfolding inline_loop_code[OF lt bt Some] by (rule ih_code)
      qed
    next
      case nbt: False
      show ?thesis
      proof (cases "startswith_at t ''**'' i \<or> startswith_at t ''__'' i")
        case st: True
        show ?thesis
        proof (cases "str_find t (slice t i (i + 2)) (i + 2)")
          case None
          have "inline_html (inline_loop t (i + 2))"
            by (rule "2.IH"(3)[OF lt nbt st None])
          with esc show ?thesis
            unfolding inline_loop_strong_open[OF lt nbt st None] by (rule inline_html_append)
        next
          case (Some e)
          have "inline_html (parse_inline (slice t (i + 2) e))"
            by (rule "2.IH"(4)[OF lt nbt st Some])
          moreover have "inline_html (inline_loop t (e + 2))"
            by (rule "2.IH"(5)[OF lt nbt st Some])
          ultimately show ?thesis
            unfolding inline_loop_strong[OF lt nbt st Some] by (rule ih_strong)
        qed
      next
        case nst: False
        show ?thesis
        proof (cases "t ! i = CHR ''*'' \<or> t ! i = CHR ''_''")
          case em: True
          show ?thesis
          proof (cases "i + 1 < length t \<and> t ! (i + 1) = t ! i")
            case db: True
            have "inline_html (inline_loop t (i + 2))"
              by (rule "2.IH"(6)[OF lt nbt nst em db])
            with esc show ?thesis
              unfolding inline_loop_doubled[OF lt nbt nst em db] by (rule inline_html_append)
          next
            case ndb: False
            show ?thesis
            proof (cases "em_close t (t ! i) (i + 1)")
              case None
              have "inline_html (inline_loop t (i + 1))"
                by (rule "2.IH"(7)[OF lt nbt nst em ndb None])
              with esc show ?thesis
                unfolding inline_loop_em_open[OF lt nbt nst em ndb None]
                by (rule inline_html_append)
            next
              case (Some e)
              have "inline_html (parse_inline (slice t (i + 1) e))"
                by (rule "2.IH"(8)[OF lt nbt nst em ndb Some])
              moreover have "inline_html (inline_loop t (e + 1))"
                by (rule "2.IH"(9)[OF lt nbt nst em ndb Some])
              ultimately show ?thesis
                unfolding inline_loop_em[OF lt nbt nst em ndb Some] by (rule ih_em)
            qed
          qed
        next
          case nem: False
          show ?thesis
          proof (cases "t ! i = CHR ''[''")
            case br: True
            show ?thesis
            proof (cases "link_at t i")
              case None
              have "inline_html (inline_loop t (i + 1))"
                by (rule "2.IH"(10)[OF lt nbt nst nem br None])
              with esc show ?thesis
                unfolding inline_loop_link_open[OF lt br None] by (rule inline_html_append)
            next
              case (Some p)
              obtain cb cp where p: "p = (cb, cp)" by (cases p)
              note la = Some[unfolded p]
              have lab: "inline_html (parse_inline (slice t (i + 1) cb))"
              proof (cases "prefix ''javascript:'' (lower (link_url t cb cp))")
                case True
                then have "\<not> \<not> prefix ''javascript:'' (lower (link_url t cb cp))" by simp
                then show ?thesis by (rule "2.IH"(12)[OF lt nbt nst nem br Some p[symmetric]])
              next
                case False
                then show ?thesis by (rule "2.IH"(11)[OF lt nbt nst nem br Some p[symmetric]])
              qed
              have rest: "inline_html (inline_loop t (cp + 1))"
                by (rule "2.IH"(13)[OF lt nbt nst nem br Some p[symmetric]])
              show ?thesis
              proof (cases "prefix ''javascript:'' (lower (link_url t cb cp))")
                case True
                with lab rest show ?thesis
                  unfolding inline_loop_link[OF lt br la] by (simp add: inline_html_append)
              next
                case False
                have "inline_html (''<a href='' @ [CHR 0x22] @ escape_q (link_url t cb cp) True
                        @ [CHR 0x22] @ ''>'' @ parse_inline (slice t (i + 1) cb) @ ''</a>''
                        @ inline_loop t (cp + 1))"
                  using attr_value_escape lab rest by (rule ih_anchor)
                with False show ?thesis
                  unfolding inline_loop_link[OF lt br la] by simp
              qed
            qed
          next
            case nbr: False
            have "inline_html (inline_loop t (i + 1))"
              by (rule "2.IH"(14)[OF lt nbt nst nem nbr])
            moreover have "inline_loop t i = escape [t ! i] @ inline_loop t (i + 1)"
              using lt nbt nem nbr by (intro inline_loop_default) auto
            ultimately show ?thesis
              using esc by (simp add: inline_html_append)
          qed
        qed
      qed
    qed
  qed
qed

section \<open>Unmatched delimiters\<close>

lemma find_sub_absent: "c \<notin> set s \<Longrightarrow> find_sub [c] s = None"
  by (induction s) auto

lemma find_fence_none:
  "\<forall>k. j \<le> k \<and> k < length ls \<longrightarrow> \<not> is_fence (ls ! k) \<Longrightarrow> find_fence ls j = None"
proof (induction ls j rule: find_fence.induct)
  case (1 ls j)
  show ?case
  proof (cases "j < length ls")
    case True
    with "1.prems" have nf: "\<not> is_fence (ls ! j)" by simp
    have "find_fence ls (j + 1) = None"
      using "1.IH"[OF True nf] "1.prems" by simp
    with True nf show ?thesis by (subst find_fence.simps) simp
  next
    case False
    then show ?thesis by (subst find_fence.simps) simp
  qed
qed

text \<open>
  The steps of the inline span formatter and of the dispatcher at an unmatched
  delimiter. The output of the inline span formatter is well-formed inline markup for
  every text: each element it opens is closed. An opening delimiter with no valid close
  is emitted as it stands and the scan goes on after it: a backtick with no later
  backtick; \<open>**\<close> or \<open>__\<close> with no later occurrence of the same pair; a single \<open>*\<close> or
  \<open>_\<close> for which the scan finds no isolated close; an opening bracket for which the link
  pattern does not complete. At an opening fence with no later fence line the dispatcher
  emits a paragraph holding the escaped line and goes on with the next line.
\<close>

lemma unmatched_delimiter_steps:
  "inline_html (parse_inline t)
   \<and> (i < length t \<and> t ! i = CHR ''`'' \<and> CHR ''`'' \<notin> set (drop (i + 1) t)
        \<longrightarrow> inline_loop t i = ''`'' @ inline_loop t (i + 1))
   \<and> ((c = CHR ''*'' \<or> c = CHR ''_'') \<and> startswith_at t [c, c] i
          \<and> \<not> has_sub [c, c] (drop (i + 2) t)
        \<longrightarrow> inline_loop t i = [c, c] @ inline_loop t (i + 2))
   \<and> ((c = CHR ''*'' \<or> c = CHR ''_'') \<and> i < length t \<and> t ! i = c
          \<and> \<not> (i + 1 < length t \<and> t ! (i + 1) = c)
          \<and> isolated_close c (drop (i + 1) t) = None
        \<longrightarrow> inline_loop t i = [c] @ inline_loop t (i + 1))
   \<and> (i < length t \<and> t ! i = CHR ''['' \<and> link_at t i = None
        \<longrightarrow> inline_loop t i = ''['' @ inline_loop t (i + 1))
   \<and> (j < length ls \<and> is_fence (ls ! j) \<and> (\<forall>k. j < k \<and> k < length ls \<longrightarrow> \<not> is_fence (ls ! k))
        \<longrightarrow> main_loop ls j out = main_loop ls (j + 1) (out @ [''<p>'' @ escape (ls ! j) @ ''</p>'']))"
proof (intro conjI impI)
  show "inline_html (parse_inline t)" by (rule parse_inline_html)
next
  assume a: "i < length t \<and> t ! i = CHR ''`'' \<and> CHR ''`'' \<notin> set (drop (i + 1) t)"
  then have "str_find t ''`'' (i + 1) = None"
    by (simp add: str_find_def find_sub_absent)
  with a show "inline_loop t i = ''`'' @ inline_loop t (i + 1)"
    by (simp add: inline_loop_code_open escape_def escape_q_def escape_char_def)
next
  assume a: "(c = CHR ''*'' \<or> c = CHR ''_'') \<and> startswith_at t [c, c] i
          \<and> \<not> has_sub [c, c] (drop (i + 2) t)"
  then have b: "i + 1 < length t" "t ! i = c" "t ! (i + 1) = c"
    by (simp_all add: startswith_at_two)
  then have sl: "slice t i (i + 2) = [c, c]"
    by (simp add: slice_def Cons_nth_drop_Suc[symmetric] numeral_2_eq_2)
  from a b have nf: "str_find t (slice t i (i + 2)) (i + 2) = None"
    unfolding sl by (simp add: str_find_def has_sub_def)
  have "inline_loop t i = escape (slice t i (i + 2)) @ inline_loop t (i + 2)"
    using a b nf by (intro inline_loop_strong_open) auto
  with a show "inline_loop t i = [c, c] @ inline_loop t (i + 2)"
    unfolding sl by (auto simp: escape_def escape_q_def escape_char_def)
next
  assume a: "(c = CHR ''*'' \<or> c = CHR ''_'') \<and> i < length t \<and> t ! i = c
          \<and> \<not> (i + 1 < length t \<and> t ! (i + 1) = c)
          \<and> isolated_close c (drop (i + 1) t) = None"
  then have "em_close t c (i + 1) = None"
    using em_close_isolated[of "i + 1" t "drop (i + 1) t" c] by simp
  with a have "inline_loop t i = escape [t ! i] @ inline_loop t (i + 1)"
    by (intro inline_loop_em_open) (auto simp: startswith_at_two)
  with a show "inline_loop t i = [c] @ inline_loop t (i + 1)"
    by (auto simp: escape_def escape_q_def escape_char_def)
next
  assume a: "i < length t \<and> t ! i = CHR ''['' \<and> link_at t i = None"
  then show "inline_loop t i = ''['' @ inline_loop t (i + 1)"
    by (simp add: inline_loop_link_open escape_def escape_q_def escape_char_def)
next
  assume a: "j < length ls \<and> is_fence (ls ! j)
      \<and> (\<forall>k. j < k \<and> k < length ls \<longrightarrow> \<not> is_fence (ls ! k))"
  then have "find_fence ls (j + 1) = None"
    by (intro find_fence_none) auto
  with a show "main_loop ls j out = main_loop ls (j + 1) (out @ [''<p>'' @ escape (ls ! j) @ ''</p>''])"
    by (subst main_loop.simps) simp
qed

text \<open>
  C5 (for every input text, an opening delimiter with no valid close renders as literal
  escaped text in the output): on the one-line input \<open>2.5 *x\<close> the asterisk has no
  close, and the conversion has no output at all. The inline span formatter is never
  reached: the line starts with a digit and holds a full stop, so the dispatcher hands it
  to the list assembler, which returns at once without consuming it, and the dispatcher
  resumes at the same line for ever: the defect of the section on termination.
\<close>

theorem unmatched_delimiter_no_output:
  "parse_markdown ''2.5 *x'' = None"
proof -
  have "main_loop [''2.5 *x''] 0 [] = None"
    by (rule main_loop_stuck) (simp_all add: inline_eval list_eval block_eval)
  then show ?thesis
    by (simp add: parse_markdown_def splitlines_def is_linebreak_def inline_eval)
qed


section \<open>Escaping of the output\<close>























lemma entity_nonempty: "e \<in> set entities \<Longrightarrow> e \<noteq> []"
  by (auto simp: entities_def)





end
